theory Spec2Isabelle
  imports Complex_Main "HOL-Library.Word"
begin

section \<open>Data model\<close>

text \<open>
  The source file \<^verbatim>\<open>src/fft_fr.c\<close> works on arrays of field elements (\<^verbatim>\<open>fr_t\<close>) that
  are handed over as C pointers. The memory holding field elements is a store from
  addresses to values; an address counts whole \<^verbatim>\<open>fr_t\<close> slots, so that the C expression
  \<^verbatim>\<open>p + k\<close> on an \<^verbatim>\<open>fr_t *\<close> is the address \<open>p + k\<close>. Pointer arithmetic does not wrap
  (it is on \<open>nat\<close>), the \<^verbatim>\<open>uint64_t\<close> values of the source are 64-bit words and wrap.
\<close>

type_synonym addr = nat
type_synonym uint64_t = "64 word"
type_synonym 'a heap = "addr \<Rightarrow> 'a"

text \<open>
  Modelled from the spec: the return code \<^verbatim>\<open>C_KZG_RET\<close> is declared in a header that is
  not part of the source at hand. The driver uses the two values below: success, and
  the only error kind of this core, \<open>BadArguments\<close>.
\<close>

datatype C_KZG_RET = C_KZG_OK | C_KZG_BADARGS

text \<open>
  An unsigned division by zero has no defined result in C. The driver divides before it
  validates, so this outcome is a branch of the model.
\<close>

datatype fault = Division_By_Zero

text \<open>
  Modelled from the spec: the settings object (\<^verbatim>\<open>FFTSettings\<close>, declared in a missing
  header) exposes \<open>max_width\<close> and the two root tables. The tables are pointers into
  the store of field elements; the source names them \<^verbatim>\<open>expanded_roots_of_unity\<close>
  (forward) and \<^verbatim>\<open>reverse_roots_of_unity\<close> (inverse).
\<close>

record FFTSettings =
  max_width :: uint64_t
  expanded_roots_of_unity :: addr
  reverse_roots_of_unity :: addr

section \<open>The external field arithmetic\<close>

text \<open>
  Modelled from the spec: the field-arithmetic primitives \<^verbatim>\<open>fr_add\<close>, \<^verbatim>\<open>fr_sub\<close>,
  \<^verbatim>\<open>fr_mul\<close>, \<^verbatim>\<open>fr_inv\<close> and \<^verbatim>\<open>fr_from_uint64\<close> belong to an external component
  that is missing from the source. The spec takes them as the exact operations of a
  field: addition, subtraction, multiplication, multiplicative inverse, and the
  canonical embedding of a non-negative integer. The element type is any type of class
  \<open>field\<close>; the C functions write their result through the first pointer argument,
  the model returns it.
\<close>

definition fr_add :: "'a::field \<Rightarrow> 'a \<Rightarrow> 'a" where
  "fr_add a b = a + b"

definition fr_sub :: "'a::field \<Rightarrow> 'a \<Rightarrow> 'a" where
  "fr_sub a b = a - b"

definition fr_mul :: "'a::field \<Rightarrow> 'a \<Rightarrow> 'a" where
  "fr_mul a b = a * b"

definition fr_inv :: "'a::field \<Rightarrow> 'a" where
  "fr_inv a = inverse a"

definition fr_from_uint64 :: "uint64_t \<Rightarrow> 'a::field" where
  "fr_from_uint64 n = of_nat (unat n)"

text \<open>
  Modelled from the spec: \<^verbatim>\<open>is_power_of_two\<close> comes from the missing \<^verbatim>\<open>utility.h\<close>.
  The spec reads it as "n is a power of two"; a 64-bit value is one exactly when it is
  \<open>2 ^ k\<close> for some \<open>k < 64\<close>.
\<close>

definition is_power_of_two :: "uint64_t \<Rightarrow> bool" where
  "is_power_of_two n = (\<exists>k \<in> {0..<64}. n = 2 ^ k)"

section \<open>The recursive transform engine\<close>

text \<open>
  The butterfly loop of \<^verbatim>\<open>fft_fr_fast\<close>:
  \<^verbatim>\<open>for (uint64_t i = 0; i < half; i++) { ... }\<close>, started at the loop counter \<open>i\<close>.
  Each of the three field operations reads the store as it is at that moment.
\<close>

function fft_fr_fast_loop ::
  "'a::field heap \<Rightarrow> addr \<Rightarrow> addr \<Rightarrow> uint64_t \<Rightarrow> uint64_t \<Rightarrow> uint64_t \<Rightarrow> 'a heap" where
  "fft_fr_fast_loop h out roots roots_stride half i =
     (if i < half then
        let y_times_root = fr_mul (h (out + unat (i + half))) (h (roots + unat (i * roots_stride)));
            h1 = h(out + unat (i + half) := fr_sub (h (out + unat i)) y_times_root);
            h2 = h1(out + unat i := fr_add (h1 (out + unat i)) y_times_root)
        in fft_fr_fast_loop h2 out roots roots_stride half (i + 1)
      else h)"
  by pat_completeness auto
termination
proof (relation "measure (\<lambda>(h, out, roots, roots_stride, half, i). unat half - unat i)")
  fix h :: "'a heap" and out roots :: addr and roots_stride half i :: uint64_t
    and x xa xb :: "'a heap"
  assume "i < half"
  then have lt: "unat i < unat half"
    by (simp add: word_less_nat_alt)
  from \<open>i < half\<close> have "unat (i + 1) = unat i + 1"
    by (metis (no_types, lifting) add.commute add_cancel_left_right inc_i
        inc_le unat_plus_simple unsigned_0 unsigned_1 word_gt_0)
  with lt show "((xb, out, roots, roots_stride, half, i + 1), h, out, roots, roots_stride, half, i)
      \<in> measure (\<lambda>(h, out, roots, roots_stride, half, i). unat half - unat i)"
    by simp
qed simp

text \<open>
  \<^verbatim>\<open>fft_fr_fast(out, in, stride, roots, roots_stride, n)\<close>. The second recursive call
  runs on the store the first one left, the loop on the store the second one left. In
  the base case \<^verbatim>\<open>*out = *in\<close> copies one slot.
\<close>

function fft_fr_fast ::
  "'a::field heap \<Rightarrow> addr \<Rightarrow> addr \<Rightarrow> uint64_t \<Rightarrow> addr \<Rightarrow> uint64_t \<Rightarrow> uint64_t \<Rightarrow> 'a heap" where
  "fft_fr_fast h out inp stride roots roots_stride n =
     (let half = n div 2 in
      if half > 0 then
        let h1 = fft_fr_fast h out inp (stride * 2) roots (roots_stride * 2) half;
            h2 = fft_fr_fast h1 (out + unat half) (inp + unat stride) (stride * 2)
                   roots (roots_stride * 2) half
        in fft_fr_fast_loop h2 out roots roots_stride half 0
      else h(out := h inp))"
  by pat_completeness auto
termination
proof (relation "measure (\<lambda>(h, out, inp, stride, roots, roots_stride, n). unat n)")
  have dec: "unat (n div 2) < unat n" if "0 < n div 2" for n :: uint64_t
  proof -
    have "unat (n div 2) = unat n div 2"
      by (simp add: unat_div)
    moreover from that have "unat (n div 2) \<noteq> 0"
      by (simp add: unat_eq_0)
    ultimately show ?thesis
      by linarith
  qed
  fix h :: "'a heap" and out inp roots :: addr and stride roots_stride n x :: uint64_t
  assume "x = n div 2" and "0 < x"
  then show "((h, out, inp, stride * 2, roots, roots_stride * 2, x), h, out, inp, stride, roots, roots_stride, n)
      \<in> measure (\<lambda>(h, out, inp, stride, roots, roots_stride, n). unat n)"
    using dec [of n] by simp
  fix xa :: "'a heap"
  from \<open>x = n div 2\<close> \<open>0 < x\<close>
  show "((xa, out + unat x, inp + unat stride, stride * 2, roots, roots_stride * 2, x), h, out, inp, stride, roots, roots_stride, n)
      \<in> measure (\<lambda>(h, out, inp, stride, roots, roots_stride, n). unat n)"
    using dec [of n] by simp
qed simp

section \<open>The transform driver\<close>

text \<open>
  The scaling loop of the inverse branch of \<^verbatim>\<open>fft_fr\<close>:
  \<^verbatim>\<open>for (uint64_t i = 0; i < n; i++) fr_mul(&out[i], &out[i], &inv_len);\<close>
\<close>

function fft_fr_scale_loop ::
  "'a::field heap \<Rightarrow> addr \<Rightarrow> 'a \<Rightarrow> uint64_t \<Rightarrow> uint64_t \<Rightarrow> 'a heap" where
  "fft_fr_scale_loop h out inv_len n i =
     (if i < n then
        fft_fr_scale_loop (h(out + unat i := fr_mul (h (out + unat i)) inv_len)) out inv_len n (i + 1)
      else h)"
  by pat_completeness auto
termination
proof (relation "measure (\<lambda>(h, out, inv_len, n, i). unat n - unat i)")
  fix h :: "'a heap" and out :: addr and inv_len :: 'a and n i :: uint64_t
  assume "i < n"
  then have lt: "unat i < unat n"
    by (simp add: word_less_nat_alt)
  from \<open>i < n\<close> have "unat (i + 1) = unat i + 1"
    by (metis (no_types, lifting) add.commute add_cancel_left_right inc_i
        inc_le unat_plus_simple unsigned_0 unsigned_1 word_gt_0)
  with lt show "((h(out + unat i := fr_mul (h (out + unat i)) inv_len), out, inv_len, n, i + 1), h, out, inv_len, n, i)
      \<in> measure (\<lambda>(h, out, inv_len, n, i). unat n - unat i)"
    by simp
qed simp

text \<open>
  Modelled from the spec: the macro \<^verbatim>\<open>CHECK(cond)\<close> comes from a missing header; a
  failed check returns \<open>BadArguments\<close> at once. In \<^verbatim>\<open>fft_fr\<close> the statement
  \<^verbatim>\<open>uint64_t stride = fs->max_width / n;\<close> comes first, before both checks, so a call
  with \<open>n = 0\<close> divides by zero. The result is the fault, or the return code together
  with the store the call leaves.
\<close>

definition fft_fr ::
  "'a::field heap \<Rightarrow> addr \<Rightarrow> addr \<Rightarrow> bool \<Rightarrow> uint64_t \<Rightarrow> FFTSettings \<Rightarrow> fault + (C_KZG_RET \<times> 'a heap)" where
  "fft_fr h out inp inverse' n fs =
     (if n = 0 then Inl Division_By_Zero
      else
        let stride = max_width fs div n in
        if \<not> n \<le> max_width fs then Inr (C_KZG_BADARGS, h)
        else if \<not> is_power_of_two n then Inr (C_KZG_BADARGS, h)
        else if inverse' then
          let inv_len = fr_from_uint64 n;
              inv_len = fr_inv inv_len;
              h1 = fft_fr_fast h out inp 1 (reverse_roots_of_unity fs) stride n
          in Inr (C_KZG_OK, fft_fr_scale_loop h1 out inv_len n 0)
        else Inr (C_KZG_OK, fft_fr_fast h out inp 1 (expanded_roots_of_unity fs) stride n))"

section \<open>The slow transform of the test code\<close>

text \<open>
  \<^verbatim>\<open>fft_fr_slow\<close> is compiled with the tests only. Its inner loop accumulates \<^verbatim>\<open>last\<close> (here \<open>last'\<close>)
  for one output index \<open>i\<close>, starting at \<open>j = 1\<close>; the products \<^verbatim>\<open>i * j\<close> and
  \<^verbatim>\<open>j * stride\<close> are 64-bit products.
\<close>

function fft_fr_slow_inner ::
  "'a::field heap \<Rightarrow> addr \<Rightarrow> uint64_t \<Rightarrow> addr \<Rightarrow> uint64_t \<Rightarrow> uint64_t \<Rightarrow> uint64_t \<Rightarrow> uint64_t
     \<Rightarrow> 'a \<Rightarrow> 'a" where
  "fft_fr_slow_inner h inp stride roots roots_stride n i j last' =
     (if j < n then
        let jv = h (inp + unat (j * stride));
            r = h (roots + unat (((i * j) mod n) * roots_stride));
            v = fr_mul jv r
        in fft_fr_slow_inner h inp stride roots roots_stride n i (j + 1) (fr_add last' v)
      else last')"
  by pat_completeness auto
termination
proof (relation "measure (\<lambda>(h, inp, stride, roots, roots_stride, n, i, j, last'). unat n - unat j)")
  fix h :: "'a heap" and inp roots :: addr and stride roots_stride n i j :: uint64_t
    and last' x xa xb :: 'a
  assume "j < n"
  then have lt: "unat j < unat n"
    by (simp add: word_less_nat_alt)
  from \<open>j < n\<close> have "unat (j + 1) = unat j + 1"
    by (metis (no_types, lifting) add.commute add_cancel_left_right inc_i
        inc_le unat_plus_simple unsigned_0 unsigned_1 word_gt_0)
  with lt show "((h, inp, stride, roots, roots_stride, n, i, j + 1, fr_add last' xb), h, inp, stride, roots, roots_stride, n, i, j, last')
      \<in> measure (\<lambda>(h, inp, stride, roots, roots_stride, n, i, j, last'). unat n - unat j)"
    by simp
qed simp

function fft_fr_slow_outer ::
  "'a::field heap \<Rightarrow> addr \<Rightarrow> addr \<Rightarrow> uint64_t \<Rightarrow> addr \<Rightarrow> uint64_t \<Rightarrow> uint64_t \<Rightarrow> uint64_t \<Rightarrow> 'a heap" where
  "fft_fr_slow_outer h out inp stride roots roots_stride n i =
     (if i < n then
        let last' = fr_mul (h inp) (h roots);
            last' = fft_fr_slow_inner h inp stride roots roots_stride n i 1 last'
        in fft_fr_slow_outer (h(out + unat i := last')) out inp stride roots roots_stride n (i + 1)
      else h)"
  by pat_completeness auto
termination
proof (relation "measure (\<lambda>(h, out, inp, stride, roots, roots_stride, n, i). unat n - unat i)")
  fix h :: "'a heap" and out inp roots :: addr and stride roots_stride n i :: uint64_t
    and x xa :: 'a
  assume "i < n"
  then have lt: "unat i < unat n"
    by (simp add: word_less_nat_alt)
  from \<open>i < n\<close> have "unat (i + 1) = unat i + 1"
    by (metis (no_types, lifting) add.commute add_cancel_left_right inc_i
        inc_le unat_plus_simple unsigned_0 unsigned_1 word_gt_0)
  with lt show "((h(out + unat i := xa), out, inp, stride, roots, roots_stride, n, i + 1), h, out, inp, stride, roots, roots_stride, n, i)
      \<in> measure (\<lambda>(h, out, inp, stride, roots, roots_stride, n, i). unat n - unat i)"
    by simp
qed simp

definition fft_fr_slow ::
  "'a::field heap \<Rightarrow> addr \<Rightarrow> addr \<Rightarrow> uint64_t \<Rightarrow> addr \<Rightarrow> uint64_t \<Rightarrow> uint64_t \<Rightarrow> 'a heap" where
  "fft_fr_slow h out inp stride roots roots_stride n =
     fft_fr_slow_outer h out inp stride roots roots_stride n 0"

section \<open>The engine without the store\<close>

text \<open>
  \<open>fast_value k x r i\<close> is output \<open>i\<close> of \<^verbatim>\<open>fft_fr_fast\<close> for the length \<open>2 ^ k\<close>, written
  as a function of the values read: \<open>x j\<close> stands for \<^verbatim>\<open>in[j * stride]\<close> and \<open>r m\<close> for
  \<^verbatim>\<open>roots[m * roots_stride]\<close>. Doubling a stride selects the even indices, the offset
  \<^verbatim>\<open>in + stride\<close> the odd ones. It is an auxiliary function of the proofs; the lemma
  \<open>fast_is_value\<close> below relates it to the code.
\<close>

primrec fast_value :: "nat \<Rightarrow> (nat \<Rightarrow> 'a::field) \<Rightarrow> (nat \<Rightarrow> 'a) \<Rightarrow> nat \<Rightarrow> 'a" where
  "fast_value 0 x r i = x 0"
| "fast_value (Suc k) x r i =
     (let half = 2 ^ k;
          even_part = fast_value k (\<lambda>j. x (2 * j)) (\<lambda>m. r (2 * m));
          odd_part = fast_value k (\<lambda>j. x (2 * j + 1)) (\<lambda>m. r (2 * m))
      in if i < half then even_part i + odd_part i * r i
         else even_part (i - half) - odd_part (i - half) * r (i - half))"

section \<open>Direct evaluation\<close>

text \<open>
  The spec's words for the naive evaluation, to be compared with the two functions of
  the source: output \<open>i\<close> of a transform of length \<open>n\<close> is the sum over \<open>j\<close> of
  \<open>in[j * stride] * root[((i * j) mod n) * roots_stride]\<close>. Strides and indices are
  natural numbers here.
\<close>

definition direct_evaluation ::
  "'a::field heap \<Rightarrow> addr \<Rightarrow> nat \<Rightarrow> addr \<Rightarrow> nat \<Rightarrow> nat \<Rightarrow> nat \<Rightarrow> 'a" where
  "direct_evaluation h inp stride roots roots_stride n i =
     (\<Sum>j<n. h (inp + j * stride) * h (roots + ((i * j) mod n) * roots_stride))"

text \<open>
  One pass of the outer loop of \<^verbatim>\<open>fft_fr_slow\<close>, as the sum it accumulates, with the
  64-bit index arithmetic of the source. An auxiliary function of the proofs.
\<close>

definition slow_row ::
  "'a::field heap \<Rightarrow> addr \<Rightarrow> uint64_t \<Rightarrow> addr \<Rightarrow> uint64_t \<Rightarrow> uint64_t \<Rightarrow> uint64_t \<Rightarrow> 'a" where
  "slow_row h inp stride roots rs n i =
     (\<Sum>j'<unat n. h (inp + unat (of_nat j' * stride)) * h (roots + unat (((i * of_nat j') mod n) * rs)))"

text \<open>
  The defining equations above recurse under an \<open>if\<close>; they are unfolded by hand, one
  step at a time.
\<close>

declare fft_fr_fast_loop.simps [simp del]
declare fft_fr_fast.simps [simp del]
declare fft_fr_scale_loop.simps [simp del]
declare fft_fr_slow_inner.simps [simp del]
declare fft_fr_slow_outer.simps [simp del]

section \<open>Auxiliary facts on 64-bit counters and the loops\<close>

lemma unat_inc: "(i::uint64_t) < m \<Longrightarrow> unat (i + 1) = unat i + 1"
  by (metis (no_types, lifting) add.commute add_cancel_left_right inc_i
        inc_le unat_plus_simple unsigned_0 unsigned_1 word_gt_0)

lemma unat_half: "unat ((n::uint64_t) div 2) = unat n div 2"
  by (simp add: unat_div)

lemma half_pos_less: "0 < (n::uint64_t) div 2 \<Longrightarrow> unat (n div 2) < unat n"
proof -
  assume "0 < n div 2"
  then have "unat (n div 2) \<noteq> 0"
    by (simp add: unat_eq_0)
  then show ?thesis
    by (simp add: unat_half)
qed

lemma dom_all: "fft_fr_fast_dom x"
proof -
  have "All (fft_fr_fast_dom :: ('a heap \<times> _) \<Rightarrow> bool)"
    by (relation "measure (\<lambda>(h, out, inp, stride, roots, roots_stride, n). unat n)")
      (simp_all add: half_pos_less)
  then show ?thesis by (rule spec)
qed

lemma unat_add_half:
  "(i::uint64_t) < half \<Longrightarrow> unat half < 2 ^ 63 \<Longrightarrow> unat (i + half) = unat i + unat half"
proof -
  assume "i < half" "unat half < 2 ^ 63"
  then have "unat i + unat half < 2 ^ 64"
    by (simp add: word_less_nat_alt)
  then show ?thesis
    using unat_add_lem [of i half] by simp
qed

lemma fast_loop_step:
  "i < half \<Longrightarrow> fft_fr_fast_loop h out roots rs half i =
     fft_fr_fast_loop
       (h(out + unat (i + half) := h (out + unat i) - h (out + unat (i + half)) * h (roots + unat (i * rs)),
          out + unat i := h (out + unat i) + h (out + unat (i + half)) * h (roots + unat (i * rs))))
       out roots rs half (i + 1)"
proof -
  assume lt: "i < half"
  then have "half \<noteq> 0" by auto
  then have "i + half \<noteq> i" by simp
  then have "unat (i + half) \<noteq> unat i"
    by (simp add: word_unat_eq_iff)
  with lt show ?thesis
    by (subst fft_fr_fast_loop.simps) (simp add: Let_def fr_mul_def fr_add_def fr_sub_def)
qed

lemma fast_loop_stop:
  "\<not> i < half \<Longrightarrow> fft_fr_fast_loop h out roots rs half i = h"
  by (subst fft_fr_fast_loop.simps) simp

lemma fast_loop_frame:
  assumes "unat half < 2 ^ 63"
    and "a \<notin> {out + unat i ..< out + unat half}"
    and "a \<notin> {out + unat half + unat i ..< out + 2 * unat half}"
  shows "fft_fr_fast_loop h out roots rs half i a = h a"
  using assms
proof (induction h out roots rs half i rule: fft_fr_fast_loop.induct)
  case (1 h out roots rs half i)
  show ?case
  proof (cases "i < half")
    case True
    then have u: "unat (i + 1) = unat i + 1" by (rule unat_inc)
    from True "1.prems" have v: "unat (i + half) = unat i + unat half"
      by (simp add: unat_add_half)
    from True have lt: "unat i < unat half"
      by (simp add: word_less_nat_alt)
    let ?y = "fr_mul (h (out + unat (i + half))) (h (roots + unat (i * rs)))"
    let ?h1 = "h(out + unat (i + half) := fr_sub (h (out + unat i)) ?y)"
    let ?h2 = "?h1(out + unat i := fr_add (?h1 (out + unat i)) ?y)"
    have "fft_fr_fast_loop h out roots rs half i a = fft_fr_fast_loop ?h2 out roots rs half (i + 1) a"
      using True by (subst fft_fr_fast_loop.simps) (simp add: Let_def)
    also have "\<dots> = ?h2 a"
      using "1.prems" u by (intro "1.IH" [OF True refl refl refl]) auto
    also have "\<dots> = h a"
      using "1.prems" lt v by auto
    finally show ?thesis .
  next
    case False
    then show ?thesis by (simp add: fast_loop_stop)
  qed
qed


lemma fast_loop_value:
  assumes "unat half < 2 ^ 63"
    and "\<forall>m. m < half \<longrightarrow> roots + unat (m * rs) \<notin> {out ..< out + 2 * unat half}"
    and "i \<le> k" and "k < half"
  shows "fft_fr_fast_loop h out roots rs half i (out + unat k) =
           h (out + unat k) + h (out + unat k + unat half) * h (roots + unat (k * rs))
       \<and> fft_fr_fast_loop h out roots rs half i (out + unat k + unat half) =
           h (out + unat k) - h (out + unat k + unat half) * h (roots + unat (k * rs))"
  using assms
proof (induction h out roots rs half i rule: fft_fr_fast_loop.induct)
  case (1 h out roots rs half i)
  from "1.prems" have True: "i < half" by simp
  then have u: "unat (i + 1) = unat i + 1" by (rule unat_inc)
  from True "1.prems" have v: "unat (i + half) = unat i + unat half"
    by (simp add: unat_add_half)
  from True have lt: "unat i < unat half"
    by (simp add: word_less_nat_alt)
  from "1.prems" have ltk: "unat k < unat half" and lek: "unat i \<le> unat k"
    by (simp_all add: word_less_nat_alt word_le_nat_alt)
  let ?y = "fr_mul (h (out + unat (i + half))) (h (roots + unat (i * rs)))"
  let ?h1 = "h(out + unat (i + half) := fr_sub (h (out + unat i)) ?y)"
  let ?h2 = "?h1(out + unat i := fr_add (?h1 (out + unat i)) ?y)"
  have step: "fft_fr_fast_loop h out roots rs half i = fft_fr_fast_loop ?h2 out roots rs half (i + 1)"
    using True by (subst fft_fr_fast_loop.simps) (simp add: Let_def)
  show ?case
  proof (cases "i = k")
    case True
    have "fft_fr_fast_loop ?h2 out roots rs half (i + 1) (out + unat k) = ?h2 (out + unat k)"
      using "1.prems"(1) u lt True by (intro fast_loop_frame) auto
    moreover have "fft_fr_fast_loop ?h2 out roots rs half (i + 1) (out + unat k + unat half)
        = ?h2 (out + unat k + unat half)"
      using "1.prems"(1) u lt True by (intro fast_loop_frame) auto
    ultimately show ?thesis
      using step True v lt by (simp add: fr_mul_def fr_add_def fr_sub_def add.assoc)
  next
    case False
    with "1.prems" have "i < k" by simp
    then have le': "i + 1 \<le> k" by (simp add: inc_le)
    from \<open>i < k\<close> have nk: "unat i < unat k"
      by (simp add: word_less_nat_alt)
    from "1.prems"(2) \<open>k < half\<close>
    have r: "roots + unat (k * rs) \<notin> {out ..< out + 2 * unat half}"
      by blast
    have eq: "?h2 (out + unat k) = h (out + unat k)"
        "?h2 (out + unat k + unat half) = h (out + unat k + unat half)"
        "?h2 (roots + unat (k * rs)) = h (roots + unat (k * rs))"
      using nk ltk lt v r by auto
    have "fft_fr_fast_loop ?h2 out roots rs half (i + 1) (out + unat k) =
           ?h2 (out + unat k) + ?h2 (out + unat k + unat half) * ?h2 (roots + unat (k * rs))
       \<and> fft_fr_fast_loop ?h2 out roots rs half (i + 1) (out + unat k + unat half) =
           ?h2 (out + unat k) - ?h2 (out + unat k + unat half) * ?h2 (roots + unat (k * rs))"
      by (rule "1.IH" [OF True refl refl refl "1.prems"(1,2) le' "1.prems"(4)])
    then show ?thesis
      unfolding step eq .
  qed
qed

lemma fast_base: "\<not> 0 < n div 2 \<Longrightarrow> fft_fr_fast h out inp stride roots rs n = h(out := h inp)"
  by (subst fft_fr_fast.simps) (simp add: Let_def)

lemma fast_rec:
  "0 < n div 2 \<Longrightarrow> fft_fr_fast h out inp stride roots rs n =
     fft_fr_fast_loop
       (fft_fr_fast (fft_fr_fast h out inp (stride * 2) roots (rs * 2) (n div 2))
          (out + unat (n div 2)) (inp + unat stride) (stride * 2) roots (rs * 2) (n div 2))
       out roots rs (n div 2) 0"
  by (subst fft_fr_fast.simps) (simp add: Let_def)

lemma half_bound: "unat ((n::uint64_t) div 2) < 2 ^ 63"
proof -
  have "unat n < 2 ^ 64"
    using unsigned_less [of n] by simp
  then show ?thesis
    by (simp add: unat_half)
qed

lemma fast_frame:
  assumes "n \<noteq> 0" and "a \<notin> {out ..< out + unat n}"
  shows "fft_fr_fast h out inp stride roots rs n a = h a"
  using assms
proof (induction h out inp stride roots rs n rule: fft_fr_fast.induct)
  case (1 h out inp stride roots rs n)
  show ?case
  proof (cases "0 < n div 2")
    case True
    let ?half = "n div 2"
    let ?h1 = "fft_fr_fast h out inp (stride * 2) roots (rs * 2) ?half"
    let ?h2 = "fft_fr_fast ?h1 (out + unat ?half) (inp + unat stride) (stride * 2) roots (rs * 2) ?half"
    from True have nz: "?half \<noteq> 0" by simp
    have le: "2 * unat ?half \<le> unat n"
      by (simp add: unat_half)
    have "fft_fr_fast h out inp stride roots rs n a = fft_fr_fast_loop ?h2 out roots rs ?half 0 a"
      using True by (simp add: fast_rec)
    also have "\<dots> = ?h2 a"
      using "1.prems" le by (intro fast_loop_frame half_bound) auto
    also have "\<dots> = ?h1 a"
      using "1.prems" le by (intro "1.IH"(2) [OF refl True refl nz]) auto
    also have "\<dots> = h a"
      using "1.prems" le by (intro "1.IH"(1) [OF refl True nz]) auto
    finally show ?thesis .
  next
    case False
    with "1.prems" show ?thesis
      by (auto simp: fast_base unat_eq_0)
  qed
qed

lemma is_power_of_two_1: "is_power_of_two 1"
  unfolding is_power_of_two_def by (rule bexI [of _ 0]) simp_all

lemma scale_loop_apply:
  "i \<le> n \<Longrightarrow> fft_fr_scale_loop h out c n i a =
     (if a \<in> {out + unat i ..< out + unat n} then h a * c else h a)"
proof (induction h out c n i rule: fft_fr_scale_loop.induct)
  case (1 h out c n i)
  show ?case
  proof (cases "i < n")
    case True
    then have u: "unat (i + 1) = unat i + 1" by (rule unat_inc)
    from True have le: "i + 1 \<le> n"
      by (simp add: inc_le)
    from True have lt: "unat i < unat n"
      by (simp add: word_less_nat_alt)
    have "fft_fr_scale_loop h out c n i a =
        fft_fr_scale_loop (h(out + unat i := fr_mul (h (out + unat i)) c)) out c n (i + 1) a"
      using True by (subst fft_fr_scale_loop.simps) simp
    also note "1.IH" [OF True le]
    finally show ?thesis
      using lt u by (auto simp: fr_mul_def)
  next
    case False
    with 1 have "i = n" by simp
    then show ?thesis
      by (subst fft_fr_scale_loop.simps) simp
  qed
qed

lemma scale_loop_whole:
  "fft_fr_scale_loop h out c n 0 = (\<lambda>a. if a \<in> {out ..< out + unat n} then h a * c else h a)"
  by (rule ext) (simp add: scale_loop_apply)

lemma fft_fr_valid:
  assumes "n \<noteq> 0" and "n \<le> max_width fs" and "is_power_of_two n"
  shows "fft_fr h out inp inverse' n fs =
     (if inverse' then
        Inr (C_KZG_OK, fft_fr_scale_loop
          (fft_fr_fast h out inp 1 (reverse_roots_of_unity fs) (max_width fs div n) n)
          out (fr_inv (fr_from_uint64 n)) n 0)
      else Inr (C_KZG_OK, fft_fr_fast h out inp 1 (expanded_roots_of_unity fs) (max_width fs div n) n))"
  using assms by (simp add: fft_fr_def Let_def)

section \<open>Powers of two\<close>

lemma unat_p2: "k < 64 \<Longrightarrow> unat (2 ^ k :: 64 word) = 2 ^ k"
proof -
  assume k: "k < 64"
  have "(2 ^ k :: 64 word) = of_nat (2 ^ k)" by simp
  then have "unat (2 ^ k :: 64 word) = 2 ^ k mod 2 ^ 64"
    by (simp only: unat_of_nat len_bit0 len_bit1 len_num1) simp
  moreover from k have "(2::nat) ^ k < 2 ^ 64"
    by (intro power_strict_increasing) simp_all
  ultimately show ?thesis by simp
qed

lemma is_power_of_two_unat:
  "is_power_of_two n \<longleftrightarrow> (\<exists>k<64. unat n = 2 ^ k)"
proof
  assume "is_power_of_two n"
  then obtain k where k: "k < 64" "n = 2 ^ k"
    by (auto simp: is_power_of_two_def)
  then have "unat n = 2 ^ k"
    by (simp add: unat_p2)
  with k show "\<exists>k<64. unat n = 2 ^ k" by blast
next
  assume "\<exists>k<64. unat n = 2 ^ k"
  then obtain k where k: "k < 64" "unat n = 2 ^ k" by blast
  then have "unat n = unat (2 ^ k :: uint64_t)"
    by (simp add: unat_p2)
  then have "n = 2 ^ k"
    by (simp add: word_unat_eq_iff)
  with k show "is_power_of_two n"
    by (auto simp: is_power_of_two_def)
qed

lemma is_power_of_two_nonzero: "is_power_of_two n \<Longrightarrow> n \<noteq> 0"
  by (auto simp: is_power_of_two_unat unat_eq_0 [symmetric] simp del: unat_eq_0)

lemma is_power_of_two_2: "is_power_of_two 2"
  unfolding is_power_of_two_def by (rule bexI [of _ 1]) simp_all

lemma is_power_of_two_4: "is_power_of_two 4"
  unfolding is_power_of_two_def by (rule bexI [of _ 2]) simp_all

section \<open>Sums over even and odd indices, and the engine as a sum\<close>

lemma sum_even_odd:
  "(\<Sum>j<2 * (n::nat). f j) = (\<Sum>j<n. f (2 * j)) + (\<Sum>j<n. (f (2 * j + 1) :: 'a::comm_monoid_add))"
  by (induction n) (simp_all add: algebra_simps)

lemma fast_value_sum:
  assumes "k = 0 \<or> w ^ (2 ^ (k - 1)) = - 1"
    and "\<forall>m<2 ^ k div 2. r m = w ^ m"
    and "i < 2 ^ k"
  shows "fast_value k x r i = (\<Sum>j<2 ^ k. x j * w ^ (i * j))"
  using assms
proof (induction k arbitrary: x r w i)
  case 0
  then show ?case by simp
next
  case (Suc k)
  from Suc.prems have m1: "w ^ (2 ^ k) = - 1" by simp
  have sq: "k = 0 \<or> (w ^ 2) ^ (2 ^ (k - 1)) = - 1"
  proof (cases k)
    case 0 then show ?thesis by simp
  next
    case (Suc k')
    with m1 show ?thesis
      by (simp add: power_mult [symmetric])
  qed
  have rr: "\<forall>m<2 ^ k div 2. r (2 * m) = (w ^ 2) ^ m"
  proof (intro allI impI)
    fix m :: nat assume "m < 2 ^ k div 2"
    then have "2 * m < 2 ^ Suc k div 2" by simp
    with Suc.prems(2) have "r (2 * m) = w ^ (2 * m)" by blast
    then show "r (2 * m) = (w ^ 2) ^ m" by (simp add: power_mult)
  qed
  have ev: "fast_value k (\<lambda>j. x (2 * j)) (\<lambda>m. r (2 * m)) i' = (\<Sum>j<2 ^ k. x (2 * j) * w ^ (i' * (2 * j)))"
    if "i' < 2 ^ k" for i'
    using Suc.IH [OF sq rr that, of "\<lambda>j. x (2 * j)"]
    by (simp add: power_mult [symmetric] ac_simps)
  have od: "fast_value k (\<lambda>j. x (Suc (2 * j))) (\<lambda>m. r (2 * m)) i' = (\<Sum>j<2 ^ k. x (Suc (2 * j)) * w ^ (i' * (2 * j)))"
    if "i' < 2 ^ k" for i'
    using Suc.IH [OF sq rr that, of "\<lambda>j. x (Suc (2 * j))"]
    by (simp add: power_mult [symmetric] ac_simps)
  have split: "(\<Sum>j<2 * 2 ^ k. x j * w ^ (i * j)) =
      (\<Sum>j<2 ^ k. x (2 * j) * w ^ (i * (2 * j))) + (\<Sum>j<2 ^ k. x (Suc (2 * j)) * w ^ (i * Suc (2 * j)))"
    using sum_even_odd [of "\<lambda>j. x j * w ^ (i * j)" "2 ^ k"] by simp
  show ?case
  proof (cases "i < 2 ^ k")
    case True
    then have "i < 2 ^ Suc k div 2" by simp
    with Suc.prems(2) have ri: "r i = w ^ i" by blast
    have "(\<Sum>j<2 ^ k. x (Suc (2 * j)) * w ^ (i * (2 * j))) * w ^ i
        = (\<Sum>j<2 ^ k. x (Suc (2 * j)) * w ^ (i * Suc (2 * j)))"
      by (simp add: sum_distrib_right sum_distrib_left power_add algebra_simps)
    then have "(\<Sum>j<2 ^ k. x (2 * j) * w ^ (i * (2 * j)))
          + (\<Sum>j<2 ^ k. x (Suc (2 * j)) * w ^ (i * (2 * j))) * w ^ i
        = (\<Sum>j<2 * 2 ^ k. x j * w ^ (i * j))"
      by (simp only: split)
    with True ri show ?thesis
      by (simp add: Let_def ev od)
  next
    case False
    define i' where "i' = i - 2 ^ k"
    with False Suc.prems(3) have i': "i' < 2 ^ k" and i: "i = i' + 2 ^ k"
      by simp_all
    then have "i' < 2 ^ Suc k div 2" by simp
    with Suc.prems(2) have ri: "r i' = w ^ i'" by blast
    have e: "w ^ (i * (2 * j)) = w ^ (i' * (2 * j))" for j
    proof -
      have "w ^ (i * (2 * j)) = w ^ (i' * (2 * j)) * (w ^ (2 ^ k)) ^ (2 * j)"
        by (simp add: i power_add power_mult [symmetric] algebra_simps)
      then show ?thesis by (simp add: m1)
    qed
    have o: "w ^ (i * Suc (2 * j)) = - (w ^ (i' * (2 * j)) * w ^ i')" for j
    proof -
      have "w ^ (i * Suc (2 * j)) = w ^ (i' * (2 * j)) * w ^ i' * (w ^ (2 ^ k)) ^ Suc (2 * j)"
        unfolding i power_mult [symmetric] power_add [symmetric]
        by (simp add: algebra_simps)
      then show ?thesis by (simp add: m1)
    qed
    have "(\<Sum>j<2 ^ k. x (Suc (2 * j)) * w ^ (i' * (2 * j))) * w ^ i'
        = - (\<Sum>j<2 ^ k. x (Suc (2 * j)) * w ^ (i * Suc (2 * j)))"
      unfolding o by (simp add: sum_distrib_right sum_negf mult.assoc)
    then have "(\<Sum>j<2 ^ k. x (2 * j) * w ^ (i' * (2 * j)))
          - (\<Sum>j<2 ^ k. x (Suc (2 * j)) * w ^ (i' * (2 * j))) * w ^ i'
        = (\<Sum>j<2 * 2 ^ k. x j * w ^ (i * j))"
      by (simp only: split e) simp
    with False ri i' show ?thesis
      by (simp add: Let_def ev od i'_def [symmetric])
  qed
qed


lemma word_p2_half: "Suc k < 64 \<Longrightarrow> (2 ^ Suc k :: uint64_t) div 2 = 2 ^ k"
proof -
  assume k: "Suc k < 64"
  then have "unat ((2 ^ Suc k :: uint64_t) div 2) = unat (2 ^ k :: uint64_t)"
    by (simp add: unat_half unat_p2 del: power_Suc) simp
  then show ?thesis
    by (simp only: word_unat_eq_iff)
qed

lemma unat_double:
  "2 * unat (s::uint64_t) < 2 ^ 64 \<Longrightarrow> unat (s * 2) = 2 * unat s"
  using unat_mult_lem [of s 2] by simp

lemma unat_of_nat_mult:
  "i * unat (s::uint64_t) < 2 ^ 64 \<Longrightarrow> i < 2 ^ 64 \<Longrightarrow> unat (of_nat i * s) = i * unat s"
proof -
  assume a: "i * unat s < 2 ^ 64" and b: "i < 2 ^ 64"
  from b have u: "unat (of_nat i :: uint64_t) = i"
    by (simp add: unat_of_nat)
  with a have "unat (of_nat i :: uint64_t) * unat s < 2 ^ LENGTH(64)"
    by simp
  then have "unat (of_nat i * s) = unat (of_nat i :: uint64_t) * unat s"
    by (simp only: unat_mult_lem)
  with u show ?thesis by simp
qed


lemma fast_value_cong:
  assumes "\<And>j. j < 2 ^ k \<Longrightarrow> x j = x' j" and "\<And>m. m < 2 ^ k \<Longrightarrow> r m = r' m" and "i < 2 ^ k"
  shows "fast_value k x r i = fast_value k x' r' i"
  using assms
proof (induction k arbitrary: x x' r r' i)
  case 0
  then show ?case by simp
next
  case (Suc k)
  have e: "fast_value k (\<lambda>j. x (2 * j)) (\<lambda>m. r (2 * m)) i' =
      fast_value k (\<lambda>j. x' (2 * j)) (\<lambda>m. r' (2 * m)) i'" if "i' < 2 ^ k" for i'
    using that by (intro Suc.IH Suc.prems(1,2)) simp_all
  have o: "fast_value k (\<lambda>j. x (2 * j + 1)) (\<lambda>m. r (2 * m)) i' =
      fast_value k (\<lambda>j. x' (2 * j + 1)) (\<lambda>m. r' (2 * m)) i'" if "i' < 2 ^ k" for i'
    using that by (intro Suc.IH Suc.prems(1,2)) simp_all
  show ?case
  proof (cases "i < 2 ^ k")
    case True
    with Suc.prems(2) [of i] show ?thesis
      by (simp add: Let_def e [simplified] o [simplified])
  next
    case False
    with Suc.prems(3) have "i - 2 ^ k < 2 ^ k" by simp
    with Suc.prems(2) [of "i - 2 ^ k"] False show ?thesis
      by (simp add: Let_def e [simplified] o [simplified])
  qed
qed

lemma fast_is_value:
  assumes "k < 64" and "n = 2 ^ k"
    and "2 ^ k * unat stride < 2 ^ 64"
    and "2 ^ k * unat rs < 2 ^ 64"
    and "\<forall>j<2 ^ k. inp + j * unat stride \<notin> {out ..< out + 2 ^ k}"
    and "\<forall>m<2 ^ k. roots + m * unat rs \<notin> {out ..< out + 2 ^ k}"
    and "i < 2 ^ k"
  shows "fft_fr_fast h out inp stride roots rs n (out + i) =
     fast_value k (\<lambda>j. h (inp + j * unat stride)) (\<lambda>m. h (roots + m * unat rs)) i"
  using assms
proof (induction k arbitrary: h out inp stride rs n i)
  case 0
  then have "\<not> 0 < n div 2" by simp
  with 0 show ?case
    by (simp add: fast_base)
next
  case (Suc k)
  let ?s = "unat stride" and ?r = "unat rs"
  let ?K = "(2::nat) ^ k"
  from Suc.prems have k: "k < 64" by simp
  from Suc.prems have half: "n div 2 = 2 ^ k"
    by (simp only: word_p2_half)
  with k have uh: "unat (n div 2) = ?K"
    by (simp add: unat_p2)
  then have pos: "0 < n div 2"
    by (simp add: word_less_nat_alt)
  then have nz: "n div 2 \<noteq> 0" by simp
  have Kpos: "0 < ?K" by simp
  from Suc.prems(3) have s2: "2 * ?s < 2 ^ 64"
    using Kpos by (metis (no_types, lifting) One_nat_def Suc_leI le_less_trans mult.commute
        mult_le_mono1 nat_mult_1 power_Suc)
  from Suc.prems(4) have r2: "2 * ?r < 2 ^ 64"
    using Kpos by (metis (no_types, lifting) One_nat_def Suc_leI le_less_trans mult.commute
        mult_le_mono1 nat_mult_1 power_Suc)
  have us: "unat (stride * 2) = 2 * ?s" and ur: "unat (rs * 2) = 2 * ?r"
    using s2 r2 by (simp_all add: unat_double)
  let ?h1 = "fft_fr_fast h out inp (stride * 2) roots (rs * 2) (n div 2)"
  let ?h2 = "fft_fr_fast ?h1 (out + unat (n div 2)) (inp + ?s) (stride * 2) roots (rs * 2) (n div 2)"
  have inp_out: "inp + j * ?s \<notin> {out ..< out + 2 * ?K}" if "j < 2 * ?K" for j
    using Suc.prems(5) that by simp
  have roots_out: "roots + m * ?r \<notin> {out ..< out + 2 * ?K}" if "m < 2 * ?K" for m
    using Suc.prems(6) that by simp
  have f1: "?h1 a = h a" if "a \<notin> {out ..< out + ?K}" for a
    using fast_frame [OF nz, of a out h inp "stride * 2" roots "rs * 2"] that uh by simp
  have f2: "?h2 a = ?h1 a" if "a \<notin> {out + ?K ..< out + 2 * ?K}" for a
    using fast_frame [OF nz, of a "out + unat (n div 2)" ?h1 "inp + ?s" "stride * 2" roots "rs * 2"]
      that uh by auto
  have v1: "?h1 (out + i') = fast_value k (\<lambda>j. h (inp + (2 * j) * ?s)) (\<lambda>m. h (roots + (2 * m) * ?r)) i'"
    if "i' < ?K" for i'
  proof -
    have "?h1 (out + i') =
        fast_value k (\<lambda>j. h (inp + j * unat (stride * 2))) (\<lambda>m. h (roots + m * unat (rs * 2))) i'"
    proof (rule Suc.IH [OF k half _ _ _ _ that])
      show "2 ^ k * unat (stride * 2) < 2 ^ 64"
        using Suc.prems(3) by (simp add: us ac_simps)
      show "2 ^ k * unat (rs * 2) < 2 ^ 64"
        using Suc.prems(4) by (simp add: ur ac_simps)
      show "\<forall>j<2 ^ k. inp + j * unat (stride * 2) \<notin> {out ..< out + 2 ^ k}"
      proof (intro allI impI)
        fix j :: nat assume "j < 2 ^ k"
        then have "inp + (2 * j) * ?s \<notin> {out ..< out + 2 * ?K}"
          by (intro inp_out) simp
        then show "inp + j * unat (stride * 2) \<notin> {out ..< out + 2 ^ k}"
          by (auto simp: us ac_simps)
      qed
      show "\<forall>m<2 ^ k. roots + m * unat (rs * 2) \<notin> {out ..< out + 2 ^ k}"
      proof (intro allI impI)
        fix m :: nat assume "m < 2 ^ k"
        then have "roots + (2 * m) * ?r \<notin> {out ..< out + 2 * ?K}"
          by (intro roots_out) simp
        then show "roots + m * unat (rs * 2) \<notin> {out ..< out + 2 ^ k}"
          by (auto simp: ur ac_simps)
      qed
    qed
    then show ?thesis
      by (simp add: us ur ac_simps)
  qed
  have v2: "?h2 (out + ?K + i') =
      fast_value k (\<lambda>j. h (inp + (2 * j + 1) * ?s)) (\<lambda>m. h (roots + (2 * m) * ?r)) i'"
    if "i' < ?K" for i'
  proof -
    have A: "?h2 (out + unat (n div 2) + i') =
        fast_value k (\<lambda>j. ?h1 (inp + ?s + j * unat (stride * 2))) (\<lambda>m. ?h1 (roots + m * unat (rs * 2))) i'"
    proof (rule Suc.IH [OF k half _ _ _ _ that])
      show "2 ^ k * unat (stride * 2) < 2 ^ 64"
        using Suc.prems(3) by (simp add: us ac_simps)
      show "2 ^ k * unat (rs * 2) < 2 ^ 64"
        using Suc.prems(4) by (simp add: ur ac_simps)
      show "\<forall>j<2 ^ k. inp + ?s + j * unat (stride * 2) \<notin> {out + unat (n div 2) ..< out + unat (n div 2) + 2 ^ k}"
      proof (intro allI impI)
        fix j :: nat assume "j < 2 ^ k"
        then have "inp + (2 * j + 1) * ?s \<notin> {out ..< out + 2 * ?K}"
          by (intro inp_out) simp
        then show "inp + ?s + j * unat (stride * 2) \<notin> {out + unat (n div 2) ..< out + unat (n div 2) + 2 ^ k}"
          by (auto simp: us uh ac_simps)
      qed
      show "\<forall>m<2 ^ k. roots + m * unat (rs * 2) \<notin> {out + unat (n div 2) ..< out + unat (n div 2) + 2 ^ k}"
      proof (intro allI impI)
        fix m :: nat assume "m < 2 ^ k"
        then have "roots + (2 * m) * ?r \<notin> {out ..< out + 2 * ?K}"
          by (intro roots_out) simp
        then show "roots + m * unat (rs * 2) \<notin> {out + unat (n div 2) ..< out + unat (n div 2) + 2 ^ k}"
          by (auto simp: ur uh ac_simps)
      qed
    qed
    have B: "?h1 (inp + ?s + j * unat (stride * 2)) = h (inp + (2 * j + 1) * ?s)" if "j < ?K" for j
    proof -
      from that have "inp + (2 * j + 1) * ?s \<notin> {out ..< out + 2 * ?K}"
        by (intro inp_out) simp
      then have "?h1 (inp + (2 * j + 1) * ?s) = h (inp + (2 * j + 1) * ?s)"
        by (intro f1) auto
      then show ?thesis
        by (simp add: us ac_simps)
    qed
    have C: "?h1 (roots + m * unat (rs * 2)) = h (roots + (2 * m) * ?r)" if "m < ?K" for m
    proof -
      from that have "roots + (2 * m) * ?r \<notin> {out ..< out + 2 * ?K}"
        by (intro roots_out) simp
      then have "?h1 (roots + (2 * m) * ?r) = h (roots + (2 * m) * ?r)"
        by (intro f1) auto
      then show ?thesis
        by (simp add: ur ac_simps)
    qed
    have "fast_value k (\<lambda>j. ?h1 (inp + ?s + j * unat (stride * 2))) (\<lambda>m. ?h1 (roots + m * unat (rs * 2))) i'
        = fast_value k (\<lambda>j. h (inp + (2 * j + 1) * ?s)) (\<lambda>m. h (roots + (2 * m) * ?r)) i'"
      using that by (intro fast_value_cong B C)
    with A show ?thesis
      by (simp only: uh)
  qed
  have rd: "\<forall>m. m < n div 2 \<longrightarrow> roots + unat (m * rs) \<notin> {out ..< out + 2 * unat (n div 2)}"
  proof (intro allI impI)
    fix m :: uint64_t assume "m < n div 2"
    then have m: "unat m < ?K"
      by (simp add: word_less_nat_alt uh)
    then have "unat m * ?r \<le> 2 ^ Suc k * ?r"
      by (intro mult_le_mono1) simp
    also note Suc.prems(4)
    finally have "unat m * ?r < 2 ^ LENGTH(64)"
      by simp
    then have "unat (m * rs) = unat m * ?r"
      by (simp only: unat_mult_lem)
    moreover from m have "roots + unat m * ?r \<notin> {out ..< out + 2 * ?K}"
      by (intro roots_out) simp
    ultimately show "roots + unat (m * rs) \<notin> {out ..< out + 2 * unat (n div 2)}"
      by (simp add: uh)
  qed
  have unfold: "fft_fr_fast h out inp stride roots rs n = fft_fr_fast_loop ?h2 out roots rs (n div 2) 0"
    by (rule fast_rec [OF pos])
  have butterfly:
    "fft_fr_fast h out inp stride roots rs n (out + i') =
        ?h1 (out + i') + ?h2 (out + ?K + i') * h (roots + i' * ?r)
     \<and> fft_fr_fast h out inp stride roots rs n (out + ?K + i') =
        ?h1 (out + i') - ?h2 (out + ?K + i') * h (roots + i' * ?r)" if i': "i' < ?K" for i'
  proof -
    let ?w = "of_nat i' :: uint64_t"
    from i' k have "i' < 2 ^ 64"
      by (meson less_trans power_strict_increasing_iff rel_simps(49) semiring_norm(76))
    then have u: "unat ?w = i'"
      by (simp add: unat_of_nat)
    with i' have lt: "?w < n div 2"
      by (simp add: word_less_nat_alt uh)
    from i' have "i' * ?r \<le> 2 ^ Suc k * ?r"
      by (intro mult_le_mono1) simp
    also note Suc.prems(4)
    finally have "i' * ?r < 2 ^ 64" .
    then have ur': "unat (?w * rs) = i' * ?r"
      using \<open>i' < 2 ^ 64\<close> by (rule unat_of_nat_mult)
    from i' have ro: "roots + i' * ?r \<notin> {out ..< out + 2 * ?K}"
      by (intro roots_out) simp
    then have "?h2 (roots + i' * ?r) = ?h1 (roots + i' * ?r)"
      by (intro f2) auto
    also from ro have "\<dots> = h (roots + i' * ?r)"
      by (intro f1) auto
    finally have hr: "?h2 (roots + i' * ?r) = h (roots + i' * ?r)" .
    from i' have h21: "?h2 (out + i') = ?h1 (out + i')"
      by (intro f2) auto
    have "0 \<le> ?w" by simp
    have a3: "out + i' + unat (n div 2) = out + ?K + i'"
      by (simp add: uh)
    note L = fast_loop_value [OF half_bound rd \<open>0 \<le> ?w\<close> lt, of ?h2]
    have "fft_fr_fast_loop ?h2 out roots rs (n div 2) 0 (out + i') =
        ?h1 (out + i') + ?h2 (out + ?K + i') * h (roots + i' * ?r)
     \<and> fft_fr_fast_loop ?h2 out roots rs (n div 2) 0 (out + ?K + i') =
        ?h1 (out + i') - ?h2 (out + ?K + i') * h (roots + i' * ?r)"
      using L unfolding u ur' hr h21 a3 .
    then show ?thesis
      by (simp only: unfold)
  qed
  show ?case
  proof (cases "i < ?K")
    case True
    with butterfly [OF True] show ?thesis
      by (simp add: Let_def v1 v2)
  next
    case False
    define i' where "i' = i - ?K"
    with False Suc.prems(7) have i': "i' < ?K" and i: "i = ?K + i'"
      by simp_all
    from butterfly [OF i'] False show ?thesis
      by (simp add: Let_def v1 [OF i'] v2 [OF i'] i add.assoc [symmetric])
  qed
qed

section \<open>The slow transform as a sum\<close>

lemma slow_inner_step:
  "j < n \<Longrightarrow> fft_fr_slow_inner h inp stride roots rs n i j acc =
     fft_fr_slow_inner h inp stride roots rs n i (j + 1)
       (acc + h (inp + unat (j * stride)) * h (roots + unat (((i * j) mod n) * rs)))"
  by (subst fft_fr_slow_inner.simps) (simp add: Let_def fr_mul_def fr_add_def)

lemma slow_inner_stop:
  "\<not> j < n \<Longrightarrow> fft_fr_slow_inner h inp stride roots rs n i j acc = acc"
  by (subst fft_fr_slow_inner.simps) simp

lemma slow_inner_sum:
  "j \<le> n \<Longrightarrow> fft_fr_slow_inner h inp stride roots rs n i j acc =
     acc + (\<Sum>j' = unat j..<unat n.
        h (inp + unat (of_nat j' * stride)) * h (roots + unat (((i * of_nat j') mod n) * rs)))"
proof (induction h inp stride roots rs n i j acc rule: fft_fr_slow_inner.induct)
  case (1 h inp stride roots rs n i j acc)
  show ?case
  proof (cases "j < n")
    case True
    then have u: "unat (j + 1) = Suc (unat j)"
      using unat_inc [of j n] by simp
    from True have le: "j + 1 \<le> n"
      by (simp add: inc_le)
    from True have lt: "unat j < unat n"
      by (simp add: word_less_nat_alt)
    let ?t = "\<lambda>j'. h (inp + unat (of_nat j' * stride)) * h (roots + unat (((i * of_nat j') mod n) * rs))"
    have "fft_fr_slow_inner h inp stride roots rs n i j acc =
        fft_fr_slow_inner h inp stride roots rs n i (j + 1) (fr_add acc (fr_mul (h (inp + unat (j * stride)))
          (h (roots + unat (((i * j) mod n) * rs)))))"
      using True by (subst fft_fr_slow_inner.simps) (simp add: Let_def)
    also have "\<dots> = fr_add acc (fr_mul (h (inp + unat (j * stride))) (h (roots + unat (((i * j) mod n) * rs))))
        + sum ?t {unat (j + 1)..<unat n}"
      by (rule "1.IH" [OF True refl refl refl le])
    also have "\<dots> = acc + (?t (unat j) + sum ?t {Suc (unat j)..<unat n})"
      by (simp add: fr_add_def fr_mul_def u add.assoc)
    also have "?t (unat j) + sum ?t {Suc (unat j)..<unat n} = sum ?t {unat j..<unat n}"
      using lt by (simp add: sum.atLeast_Suc_lessThan)
    finally show ?thesis .
  next
    case False
    with "1.prems" have "j = n" by simp
    then show ?thesis
      by (simp add: slow_inner_stop)
  qed
qed


lemma slow_row_eq:
  assumes "i < n"
  shows "fft_fr_slow_inner h inp stride roots rs n i 1 (fr_mul (h inp) (h roots)) =
     slow_row h inp stride roots rs n i"
proof -
  from assms have nz: "n \<noteq> 0" by auto
  then have "1 \<le> n"
    by (simp add: word_le_nat_alt unat_eq_0 Suc_le_eq unat_gt_0)
  let ?t = "\<lambda>j'. h (inp + unat (of_nat j' * stride)) * h (roots + unat (((i * of_nat j') mod n) * rs))"
  from nz have pos: "0 < unat n"
    by (simp add: unat_gt_0)
  have "fft_fr_slow_inner h inp stride roots rs n i 1 (fr_mul (h inp) (h roots)) =
      fr_mul (h inp) (h roots) + sum ?t {unat (1::uint64_t)..<unat n}"
    using \<open>1 \<le> n\<close> by (rule slow_inner_sum)
  also have "\<dots> = ?t 0 + sum ?t {Suc 0..<unat n}"
    by (simp add: fr_mul_def)
  also have "\<dots> = sum ?t {0..<unat n}"
    using pos by (simp add: sum.atLeast_Suc_lessThan)
  finally show ?thesis
    by (simp add: slow_row_def atLeast0LessThan)
qed

lemma slow_row_cong:
  assumes "\<And>j. j < n \<Longrightarrow> h' (inp + unat (j * stride)) = h (inp + unat (j * stride))"
    and "\<And>m. m < n \<Longrightarrow> h' (roots + unat (m * rs)) = h (roots + unat (m * rs))"
  shows "slow_row h' inp stride roots rs n i = slow_row h inp stride roots rs n i"
  unfolding slow_row_def
proof (rule sum.cong [OF refl])
  fix j' assume "j' \<in> {..<unat n}"
  then have j': "j' < unat n" by simp
  then have nz: "0 < n"
    by (metis not_less_zero unat_0 word_gt_0)
  have "unat n < 2 ^ 64"
    using unsigned_less [of n] by simp
  with j' have "unat (of_nat j' :: uint64_t) = j'"
    by (simp add: unat_of_nat)
  with j' have a: "(of_nat j' :: uint64_t) < n"
    by (simp add: word_less_nat_alt)
  from nz have b: "(i * of_nat j') mod n < n"
    by (rule word_mod_less_divisor)
  from assms(1) [OF a] assms(2) [OF b]
  show "h' (inp + unat (of_nat j' * stride)) * h' (roots + unat (((i * of_nat j') mod n) * rs)) =
      h (inp + unat (of_nat j' * stride)) * h (roots + unat (((i * of_nat j') mod n) * rs))"
    by simp
qed

lemma slow_outer_apply:
  assumes "\<forall>j. j < n \<longrightarrow> inp + unat (j * stride) \<notin> {out ..< out + unat n}"
    and "\<forall>m. m < n \<longrightarrow> roots + unat (m * rs) \<notin> {out ..< out + unat n}"
    and "i \<le> n"
  shows "fft_fr_slow_outer h out inp stride roots rs n i a =
     (if a \<in> {out + unat i ..< out + unat n}
      then slow_row h inp stride roots rs n (of_nat (a - out)) else h a)"
  using assms
proof (induction h out inp stride roots rs n i rule: fft_fr_slow_outer.induct)
  case (1 h out inp stride roots rs n i)
  show ?case
  proof (cases "i < n")
    case True
    then have u: "unat (i + 1) = Suc (unat i)"
      using unat_inc [of i n] by simp
    from True have le: "i + 1 \<le> n"
      by (simp add: inc_le)
    from True have lt: "unat i < unat n"
      by (simp add: word_less_nat_alt)
    let ?v = "fft_fr_slow_inner h inp stride roots rs n i 1 (fr_mul (h inp) (h roots))"
    let ?h' = "h(out + unat i := ?v)"
    have v: "?v = slow_row h inp stride roots rs n i"
      using True by (rule slow_row_eq)
    have same: "slow_row (h(out + unat i := x)) inp stride roots rs n i' =
        slow_row h inp stride roots rs n i'" for i' x
    proof (rule slow_row_cong)
      fix j assume "j < n"
      with "1.prems"(1) lt
      show "(h(out + unat i := x)) (inp + unat (j * stride)) = h (inp + unat (j * stride))"
        by auto
    next
      fix m assume "m < n"
      with "1.prems"(2) lt
      show "(h(out + unat i := x)) (roots + unat (m * rs)) = h (roots + unat (m * rs))"
        by auto
    qed
    have "fft_fr_slow_outer h out inp stride roots rs n i a =
        fft_fr_slow_outer ?h' out inp stride roots rs n (i + 1) a"
      using True by (subst fft_fr_slow_outer.simps) (simp add: Let_def)
    also have "\<dots> = (if a \<in> {out + unat (i + 1) ..< out + unat n}
        then slow_row ?h' inp stride roots rs n (of_nat (a - out)) else ?h' a)"
      by (rule "1.IH" [OF True refl refl "1.prems"(1,2) le])
    also have "\<dots> = (if a \<in> {out + unat i ..< out + unat n}
        then slow_row h inp stride roots rs n (of_nat (a - out)) else h a)"
      using lt by (auto simp: u same v)
    finally show ?thesis .
  next
    case False
    with "1.prems" have "i = n" by simp
    then show ?thesis
      by (subst fft_fr_slow_outer.simps) simp
  qed
qed


lemma unat_mod_p2:
  assumes "k < 64"
  shows "unat ((of_nat a :: uint64_t) mod 2 ^ k) = a mod 2 ^ k"
proof -
  have "unat ((of_nat a :: uint64_t) mod 2 ^ k) = unat (of_nat a :: uint64_t) mod unat (2 ^ k :: uint64_t)"
    by (rule unat_mod)
  also have "\<dots> = (a mod 2 ^ 64) mod 2 ^ k"
    using assms by (simp add: unat_of_nat unat_p2)
  also have "\<dots> = a mod 2 ^ k"
    using assms by (intro mod_mod_cancel le_imp_power_dvd) simp
  finally show ?thesis .
qed

lemma slow_row_direct:
  assumes "k < 64" and "n = 2 ^ k"
    and "2 ^ k * unat stride < 2 ^ 64"
    and "2 ^ k * unat rs < 2 ^ 64"
  shows "slow_row h inp stride roots rs n (of_nat i) =
     direct_evaluation h inp (unat stride) roots (unat rs) (2 ^ k) i"
proof -
  from assms have un: "unat n = 2 ^ k"
    by (simp add: unat_p2)
  have lt64: "(2::nat) ^ k < 2 ^ 64"
    using assms(1) by (intro power_strict_increasing) simp_all
  have t: "h (inp + unat (of_nat j * stride)) * h (roots + unat (((of_nat i * of_nat j) mod n) * rs))
      = h (inp + j * unat stride) * h (roots + ((i * j) mod 2 ^ k) * unat rs)" if j: "j < 2 ^ k" for j
  proof -
    from j have "j * unat stride \<le> 2 ^ k * unat stride"
      by (intro mult_le_mono1) simp
    also note assms(3)
    finally have "j * unat stride < 2 ^ 64" .
    moreover from j lt64 have "j < 2 ^ 64" by simp
    ultimately have a: "unat (of_nat j * stride) = j * unat stride"
      by (rule unat_of_nat_mult)
    have "(of_nat i * of_nat j :: uint64_t) mod n = of_nat (i * j) mod 2 ^ k"
      by (simp add: assms(2))
    then have m: "unat ((of_nat i * of_nat j :: uint64_t) mod n) = (i * j) mod 2 ^ k"
      by (simp only: unat_mod_p2 [OF assms(1)])
    have "(i * j) mod 2 ^ k * unat rs \<le> 2 ^ k * unat rs"
      by (intro mult_le_mono1) simp
    also note assms(4)
    finally have "unat ((of_nat i * of_nat j :: uint64_t) mod n) * unat rs < 2 ^ LENGTH(64)"
      by (simp add: m)
    then have "unat (((of_nat i * of_nat j) mod n) * rs) = unat ((of_nat i * of_nat j :: uint64_t) mod n) * unat rs"
      by (simp only: unat_mult_lem)
    with m a show ?thesis by simp
  qed
  show ?thesis
    unfolding slow_row_def direct_evaluation_def un
    by (rule sum.cong [OF refl]) (simp add: t)
qed

lemma word_reads_outside:
  fixes n s :: uint64_t
  assumes "k < 64" and "n = 2 ^ k"
    and "2 ^ k * unat s < 2 ^ 64"
    and "\<forall>j<2 ^ k. p + j * unat s \<notin> R"
  shows "\<forall>j. j < n \<longrightarrow> p + unat (j * s) \<notin> R"
proof (intro allI impI)
  fix j :: uint64_t assume "j < n"
  with assms(1,2) have j: "unat j < 2 ^ k"
    by (simp add: word_less_nat_alt unat_p2)
  then have "unat j * unat s \<le> 2 ^ k * unat s"
    by (intro mult_le_mono1) simp
  also note assms(3)
  finally have "unat j * unat s < 2 ^ LENGTH(64)" by simp
  then have "unat (j * s) = unat j * unat s"
    by (simp only: unat_mult_lem)
  with assms(4) j show "p + unat (j * s) \<notin> R" by simp
qed

lemma slow_is_direct:
  assumes "k < 64" and "n = 2 ^ k"
    and "2 ^ k * unat stride < 2 ^ 64"
    and "2 ^ k * unat rs < 2 ^ 64"
    and "\<forall>j<2 ^ k. inp + j * unat stride \<notin> {out ..< out + 2 ^ k}"
    and "\<forall>m<2 ^ k. roots + m * unat rs \<notin> {out ..< out + 2 ^ k}"
  shows "fft_fr_slow h out inp stride roots rs n a =
     (if a \<in> {out ..< out + 2 ^ k}
      then direct_evaluation h inp (unat stride) roots (unat rs) (2 ^ k) (a - out) else h a)"
proof -
  from assms have un: "unat n = 2 ^ k"
    by (simp add: unat_p2)
  have r1: "\<forall>j. j < n \<longrightarrow> inp + unat (j * stride) \<notin> {out ..< out + unat n}"
    unfolding un by (rule word_reads_outside [OF assms(1,2,3,5)])
  have r2: "\<forall>m. m < n \<longrightarrow> roots + unat (m * rs) \<notin> {out ..< out + unat n}"
    unfolding un by (rule word_reads_outside [OF assms(1,2,4,6)])
  have "0 \<le> n" by simp
  from slow_outer_apply [OF r1 r2 this, of h a]
  show ?thesis
    unfolding fft_fr_slow_def un
    by (simp only: slow_row_direct [OF assms(1-4)] unat_0 add_0_right)
qed


lemma power_mod_unity:
  fixes w :: "'a::monoid_mult"
  assumes "w ^ n = 1"
  shows "w ^ (a mod n) = w ^ a"
proof -
  have "w ^ a = w ^ (n * (a div n) + a mod n)" by simp
  also have "\<dots> = (w ^ n) ^ (a div n) * w ^ (a mod n)"
    by (simp only: power_add power_mult)
  finally show ?thesis
    by (simp add: assms)
qed

lemma primitive_half:
  fixes w :: "'a::field"
  assumes "w ^ (2 ^ Suc k) = 1" and "1 \<notin> (\<lambda>m. w ^ m) ` {1..<2 ^ Suc k}"
  shows "w ^ (2 ^ k) = - 1"
proof -
  have "(w ^ (2 ^ k))\<^sup>2 = 1"
    using assms(1) by (simp add: power_mult [symmetric] mult.commute)
  then have "w ^ (2 ^ k) = 1 \<or> w ^ (2 ^ k) = - 1"
    by (simp only: power2_eq_1_iff)
  moreover have "(2::nat) ^ k \<in> {1..<2 ^ Suc k}" by simp
  with assms(2) have "w ^ (2 ^ k) \<noteq> 1"
    by (metis imageI)
  ultimately show ?thesis by blast
qed

lemma table_entries:
  "map f [0..<n] = map g [0..<n] \<longleftrightarrow> (\<forall>m<n. f m = g m)"
  by (auto simp: map_eq_conv)

lemma outside_iff:
  "f ` {..<n::nat} \<inter> R = {} \<longleftrightarrow> (\<forall>j<n. f j \<notin> R)"
  by auto

lemma upt_4: "[0..<4] = [0, 1, 2, 3]"
  by (simp add: upt_rec)

lemma ivl_1_4: "{Suc 0..<4} = {Suc 0, 2, 3}"
  by auto

lemma i_pow: "\<i> ^ 3 = - \<i>" "\<i> ^ 4 = 1"
  by (simp_all add: eval_nat_numeral)

section \<open>The engine depends on the values it reads only\<close>

lemma unat_lt64: "unat (w::uint64_t) < 2 ^ 64"
  using unsigned_less [of w] by simp

lemma p2_lt64: "k < 64 \<Longrightarrow> (2::nat) ^ k < 2 ^ 64"
  by (intro power_strict_increasing) simp_all

lemma fast_agree:
  assumes "k < 64" and "n = 2 ^ k"
    and "2 ^ k * unat rs < 2 ^ 64" and "2 ^ k * unat rs' < 2 ^ 64"
    and "\<forall>j<2 ^ k. inp + j \<notin> {out ..< out + 2 ^ k}"
    and "\<forall>m<2 ^ k. roots + m * unat rs \<notin> {out ..< out + 2 ^ k}"
    and "\<forall>m<2 ^ k. roots' + m * unat rs' \<notin> {out ..< out + 2 ^ k}"
    and "\<forall>j<2 ^ k. h' (inp + j) = h (inp + j)"
    and "\<forall>m<2 ^ k. h' (roots' + m * unat rs') = h (roots + m * unat rs)"
  shows "fft_fr_fast h' out inp 1 roots' rs' n a =
     (if a \<in> {out ..< out + 2 ^ k} then fft_fr_fast h out inp 1 roots rs n a else h' a)"
proof (cases "a \<in> {out ..< out + 2 ^ k}")
  case True
  then have i: "a - out < 2 ^ k" and a: "a = out + (a - out)" by auto
  have s: "2 ^ k * unat (1::uint64_t) < 2 ^ 64"
    using p2_lt64 [OF assms(1)] by simp
  have io: "\<forall>j<2 ^ k. inp + j * unat (1::uint64_t) \<notin> {out ..< out + 2 ^ k}"
    using assms(5) by simp
  have "fft_fr_fast h' out inp 1 roots' rs' n (out + (a - out)) =
      fast_value k (\<lambda>j. h' (inp + j * unat (1::uint64_t))) (\<lambda>m. h' (roots' + m * unat rs')) (a - out)"
    by (rule fast_is_value [OF assms(1,2) s assms(4) io assms(7) i])
  also have "\<dots> = fast_value k (\<lambda>j. h (inp + j * unat (1::uint64_t))) (\<lambda>m. h (roots + m * unat rs)) (a - out)"
    using assms(8,9) i by (intro fast_value_cong) simp_all
  also have "\<dots> = fft_fr_fast h out inp 1 roots rs n (out + (a - out))"
    by (rule fast_is_value [OF assms(1,2) s assms(3) io assms(6) i, symmetric])
  finally show ?thesis
    using True a by simp
next
  case False
  from assms(1,2) have "unat n = 2 ^ k"
    by (simp add: unat_p2)
  moreover from this have "n \<noteq> 0"
    by (metis power_not_zero unat_0 zero_neq_numeral)
  ultimately have "fft_fr_fast h' out inp 1 roots' rs' n a = h' a"
    using False by (intro fast_frame) simp_all
  with False show ?thesis by auto
qed

lemma pow2_cases:
  assumes "is_power_of_two n"
  obtains k where "k < 64" and "n = 2 ^ k" and "unat n = 2 ^ k"
proof -
  from assms obtain k where "k < 64" and "n = 2 ^ k"
    by (auto simp: is_power_of_two_def)
  moreover from this have "unat n = 2 ^ k"
    by (simp add: unat_p2)
  ultimately show ?thesis by (rule that)
qed

lemma stride_bound:
  fixes n w :: uint64_t
  assumes "n \<noteq> 0"
  shows "unat n * unat (w div n) < 2 ^ 64"
proof -
  have "unat n * unat (w div n) = unat n * (unat w div unat n)"
    by (simp add: unat_div)
  also have "\<dots> \<le> unat w" by simp
  also have "unat w < 2 ^ 64"
    by (rule unat_lt64)
  finally show ?thesis .
qed

lemma stride_index:
  fixes n w :: uint64_t
  assumes "n \<le> w" and "n \<noteq> 0" and "m < unat n"
  shows "m * unat (w div n) < unat w"
proof -
  from assms(2) have pos: "0 < unat n"
    by (simp add: unat_gt_0)
  from assms(1) have "unat n \<le> unat w"
    by (simp add: word_le_nat_alt)
  with pos have d: "0 < unat w div unat n"
    by (simp add: div_greater_zero_iff)
  from assms(3) have "m * (unat w div unat n) < unat n * (unat w div unat n)"
    using d by simp
  also have "\<dots> \<le> unat w" by simp
  finally show ?thesis
    by (simp add: unat_div)
qed


lemma range_outside:
  fixes T len :: nat
  assumes "{T ..< T + len} \<inter> R = {}" and "\<forall>m<n::nat. f m < len"
  shows "\<forall>m<n. T + f m \<notin> R"
proof (intro allI impI)
  fix m assume "m < n"
  with assms(2) have "T + f m \<in> {T ..< T + len}" by simp
  with assms(1) show "T + f m \<notin> R" by blast
qed

lemma word_div_same: "(n::uint64_t) \<noteq> 0 \<Longrightarrow> n div n = 1"
proof -
  assume "n \<noteq> 0"
  then have "unat n \<noteq> 0"
    by (simp add: unat_eq_0)
  then have "unat (n div n) = unat (1::uint64_t)"
    by (simp add: unat_div)
  then show ?thesis
    by (simp only: word_unat_eq_iff)
qed

lemma fast_same_store:
  assumes "k < 64" and "n = 2 ^ k"
    and "2 ^ k * unat rs < 2 ^ 64" and "2 ^ k * unat rs' < 2 ^ 64"
    and "\<forall>j<2 ^ k. inp + j \<notin> {out ..< out + 2 ^ k}"
    and "\<forall>m<2 ^ k. roots + m * unat rs \<notin> {out ..< out + 2 ^ k}"
    and "\<forall>m<2 ^ k. roots' + m * unat rs' \<notin> {out ..< out + 2 ^ k}"
    and "\<forall>m<2 ^ k. h (roots' + m * unat rs') = h (roots + m * unat rs)"
  shows "fft_fr_fast h out inp 1 roots' rs' n = fft_fr_fast h out inp 1 roots rs n"
proof (rule ext)
  fix a
  have "fft_fr_fast h out inp 1 roots' rs' n a =
      (if a \<in> {out ..< out + 2 ^ k} then fft_fr_fast h out inp 1 roots rs n a else h a)"
    using assms by (intro fast_agree) simp_all
  moreover have "fft_fr_fast h out inp 1 roots rs n a =
      (if a \<in> {out ..< out + 2 ^ k} then fft_fr_fast h out inp 1 roots rs n a else h a)"
    using assms by (intro fast_agree) simp_all
  ultimately show "fft_fr_fast h out inp 1 roots' rs' n a = fft_fr_fast h out inp 1 roots rs n a"
    by simp
qed

section \<open>Inverting the transform\<close>

lemma unity_sum_zero:
  fixes z :: "'a::field"
  assumes "z ^ n = 1" and "z \<noteq> 1"
  shows "(\<Sum>j<n. z ^ j) = 0"
  using geometric_sum [OF assms(2), of n] assms(1) by simp

lemma root_power_distinct:
  fixes W :: "'a::field"
  assumes "W ^ n = 1" and "\<forall>m. 0 < m \<and> m < n \<longrightarrow> W ^ m \<noteq> 1"
    and "l < n" and "i < n" and "l \<noteq> i"
  shows "W ^ l * inverse W ^ i \<noteq> 1"
proof
  assume eq: "W ^ l * inverse W ^ i = 1"
  from assms(1,3) have nz: "W \<noteq> 0"
    by (metis less_nat_zero_code power_0_left zero_neq_one gr_zeroI power_0)
  have li: "W ^ l = W ^ i"
  proof -
    have "W ^ l = W ^ l * (inverse W ^ i * W ^ i)"
      using nz by (simp add: power_mult_distrib [symmetric])
    also have "\<dots> = (W ^ l * inverse W ^ i) * W ^ i"
      by (simp only: mult.assoc)
    finally show ?thesis by (simp add: eq)
  qed
  show False
  proof (cases "l < i")
    case True
    then have "W ^ i = W ^ l * W ^ (i - l)"
      by (simp add: power_add [symmetric])
    with li nz have "W ^ (i - l) = 1" by simp
    moreover from True assms(4) have "0 < i - l \<and> i - l < n" by simp
    ultimately show False using assms(2) by blast
  next
    case False
    with assms(5) have "i < l" by simp
    then have "W ^ l = W ^ i * W ^ (l - i)"
      by (simp add: power_add [symmetric])
    with li nz have "W ^ (l - i) = 1" by simp
    moreover from \<open>i < l\<close> assms(3) have "0 < l - i \<and> l - i < n" by simp
    ultimately show False using assms(2) by blast
  qed
qed

lemma transform_inversion:
  fixes W :: "'a::field"
  assumes "W ^ n = 1" and "\<forall>m. 0 < m \<and> m < n \<longrightarrow> W ^ m \<noteq> 1" and "i < n"
  shows "(\<Sum>j<n. (\<Sum>l<n. x l * W ^ (j * l)) * inverse W ^ (i * j)) = of_nat n * x i"
proof -
  have nz: "W \<noteq> 0"
    using assms(1,3) by (metis less_nat_zero_code power_0_left zero_neq_one gr_zeroI power_0)
  have Vn: "inverse W ^ n = 1"
    using assms(1) by (simp add: power_inverse)
  have inner: "(\<Sum>j<n. (W ^ l * inverse W ^ i) ^ j) = (if l = i then of_nat n else 0)" if "l < n" for l
  proof (cases "l = i")
    case True
    with nz have "W ^ l * inverse W ^ i = 1"
      by (simp add: power_mult_distrib [symmetric])
    with True show ?thesis by simp
  next
    case False
    have "(W ^ l * inverse W ^ i) ^ n = (W ^ n) ^ l * (inverse W ^ n) ^ i"
      by (simp add: power_mult_distrib power_mult [symmetric] mult.commute)
    then have "(W ^ l * inverse W ^ i) ^ n = 1"
      by (simp add: assms(1) Vn)
    moreover have "W ^ l * inverse W ^ i \<noteq> 1"
      using assms(1,2) that assms(3) False by (rule root_power_distinct)
    ultimately have "(\<Sum>j<n. (W ^ l * inverse W ^ i) ^ j) = 0"
      by (rule unity_sum_zero)
    with False show ?thesis by simp
  qed
  have tm: "x l * W ^ (j * l) * inverse W ^ (i * j) = x l * (W ^ l * inverse W ^ i) ^ j" for j l
  proof -
    have "(W ^ l * inverse W ^ i) ^ j = (W ^ l) ^ j * (inverse W ^ i) ^ j"
      by (rule power_mult_distrib)
    also have "\<dots> = W ^ (j * l) * inverse W ^ (i * j)"
      by (simp only: power_mult [symmetric] mult.commute [of l j])
    finally show ?thesis
      by (simp only: mult.assoc)
  qed
  have "(\<Sum>j<n. (\<Sum>l<n. x l * W ^ (j * l)) * inverse W ^ (i * j)) =
      (\<Sum>j<n. \<Sum>l<n. x l * (W ^ l * inverse W ^ i) ^ j)"
    by (simp only: sum_distrib_right tm)
  also have "\<dots> = (\<Sum>l<n. \<Sum>j<n. x l * (W ^ l * inverse W ^ i) ^ j)"
    by (rule sum.swap)
  also have "\<dots> = (\<Sum>l<n. x l * (\<Sum>j<n. (W ^ l * inverse W ^ i) ^ j))"
    by (simp add: sum_distrib_left)
  also have "\<dots> = (\<Sum>l<n. x l * (if l = i then of_nat n else 0))"
    by (rule sum.cong [OF refl]) (simp add: inner)
  also have "\<dots> = (\<Sum>l<n. if l = i then of_nat n * x i else 0)"
    by (rule sum.cong [OF refl]) simp
  also have "\<dots> = of_nat n * x i"
    using assms(3) by (simp add: sum.delta)
  finally show ?thesis .
qed


lemma fast_is_sum:
  assumes "k < 64" and "n = 2 ^ k" and "2 ^ k * unat rs < 2 ^ 64"
    and "\<forall>j<2 ^ k. inp + j \<notin> {out ..< out + 2 ^ k}"
    and "\<forall>m<2 ^ k. roots + m * unat rs \<notin> {out ..< out + 2 ^ k}"
    and "\<forall>m<2 ^ k. h (roots + m * unat rs) = W ^ m"
    and "W ^ (2 ^ k) = 1" and "\<forall>m. 0 < m \<and> m < 2 ^ k \<longrightarrow> W ^ m \<noteq> 1"
    and "i < 2 ^ k"
  shows "fft_fr_fast h out inp 1 roots rs n (out + i) = (\<Sum>j<2 ^ k. h (inp + j) * W ^ (i * j))"
proof -
  have s: "2 ^ k * unat (1::uint64_t) < 2 ^ 64"
    using p2_lt64 [OF assms(1)] by simp
  have io: "\<forall>j<2 ^ k. inp + j * unat (1::uint64_t) \<notin> {out ..< out + 2 ^ k}"
    using assms(4) by simp
  have half: "k = 0 \<or> W ^ (2 ^ (k - 1)) = - 1"
  proof (cases k)
    case 0 then show ?thesis by simp
  next
    case (Suc k')
    from assms(8) have "1 \<notin> (\<lambda>m. W ^ m) ` {1..<2 ^ k}"
      by force
    with assms(7) have "W ^ (2 ^ k') = - 1"
      unfolding Suc by (rule primitive_half)
    with Suc show ?thesis by simp
  qed
  have "fft_fr_fast h out inp 1 roots rs n (out + i) =
      fast_value k (\<lambda>j. h (inp + j * unat (1::uint64_t))) (\<lambda>m. h (roots + m * unat rs)) i"
    by (rule fast_is_value [OF assms(1,2) s assms(3) io assms(5,9)])
  also have "\<dots> = (\<Sum>j<2 ^ k. h (inp + j * unat (1::uint64_t)) * W ^ (i * j))"
    using assms(6) by (intro fast_value_sum half assms(9)) simp
  finally show ?thesis by simp
qed


lemma two_power_field_nonzero:
  fixes w :: "'a::field"
  assumes "w ^ (2 ^ K) = 1" and "1 \<notin> (\<lambda>m. w ^ m) ` {1..<2 ^ K}" and "k \<le> K"
  shows "(of_nat (2 ^ k) :: 'a) \<noteq> 0"
proof (cases k)
  case 0
  then show ?thesis by simp
next
  case (Suc k')
  with assms(3) obtain K' where K: "K = Suc K'"
    by (cases K) simp_all
  from assms(1,2) have m1: "w ^ (2 ^ K') = - 1"
    unfolding K by (rule primitive_half)
  have "(2::nat) ^ K' \<in> {1..<2 ^ K}"
    by (simp add: K)
  with assms(2) have "w ^ (2 ^ K') \<noteq> 1"
    by (metis imageI)
  with m1 have "(- 1 :: 'a) \<noteq> 1" by simp
  then have "(2::'a) \<noteq> 0"
    by (metis add.inverse_inverse add_eq_0_iff one_add_one)
  then show ?thesis by simp
qed

section \<open>Termination of the engine\<close>

text \<open>
  Claim C9. The recursion of \<^verbatim>\<open>fft_fr_fast\<close> terminates for every length \<open>n\<close>, not only
  for powers of two: every argument tuple lies in the domain of the recursion, each
  recursive call is made with the length \<open>n div 2\<close>, which is strictly smaller than
  \<open>n\<close> whenever the recursive branch is taken, and when \<open>n div 2 = 0\<close> the call is
  the base case, a single copy.
\<close>

theorem fft_fr_fast_terminates:
  "fft_fr_fast_dom (h, out, inp, stride, roots, roots_stride, n)
   \<and> (0 < n div 2 \<longrightarrow> unat (n div 2) < unat n)
   \<and> (\<not> 0 < n div 2 \<longrightarrow> fft_fr_fast h out inp stride roots roots_stride n = h(out := h inp))"
  by (simp add: dom_all half_pos_less fast_base)

theorem fft_fr_fast_terminates_witness:
  "fft_fr_fast_dom (\<lambda>a. 0::rat, 0, 8, 1, 16, 1, 3)
   \<and> (0 < (3::uint64_t) div 2) \<and> unat ((3::uint64_t) div 2) < unat (3::uint64_t)
   \<and> \<not> 0 < (1::uint64_t) div 2
   \<and> fft_fr_fast (\<lambda>a. 0::rat) 0 8 1 16 1 1 = (\<lambda>a. 0::rat)(0 := (\<lambda>a. 0::rat) 8)"
  using fft_fr_fast_terminates [of "\<lambda>a. 0::rat" 0 8 1 16 1 3]
    fft_fr_fast_terminates [of "\<lambda>a. 0::rat" 0 8 1 16 1 1]
  by simp

section \<open>Argument validation\<close>

text \<open>
  For \<open>n \<noteq> 0\<close> the two checks decide the call before anything is computed: it returns
  \<open>BadArguments\<close> with the store untouched when \<open>n\<close> exceeds \<open>max_width\<close> or is not
  a power of two, and success otherwise.
\<close>

lemma fft_fr_invalid:
  assumes "n \<noteq> 0" and "\<not> (n \<le> max_width fs \<and> is_power_of_two n)"
  shows "fft_fr h out inp inverse' n fs = Inr (C_KZG_BADARGS, h)"
  using assms by (auto simp: fft_fr_def Let_def)

lemma fft_fr_returns_ok_iff:
  assumes "n \<noteq> 0"
  shows "(\<exists>h'. fft_fr h out inp inverse' n fs = Inr (C_KZG_OK, h'))
     \<longleftrightarrow> n \<le> max_width fs \<and> is_power_of_two n"
  using assms by (auto simp: fft_fr_def Let_def)

text \<open>
  Claim C3 asks that \<^verbatim>\<open>fft_fr\<close> returns \<open>BadArguments\<close>, with \<open>out\<close> unmodified and
  before any computation, exactly when \<open>n = 0\<close>, \<open>n\<close> is not a power of two or
  \<open>n > max_width\<close>. The code computes \<^verbatim>\<open>fs->max_width / n\<close> before it checks anything,
  so for \<open>n = 0\<close> the call divides by zero and returns no code at all, whatever the
  other arguments are.
\<close>

theorem fft_fr_zero_length:
  "fft_fr h out inp inverse' 0 fs = Inl Division_By_Zero"
  by (simp add: fft_fr_def)

section \<open>The degenerate length\<close>

text \<open>
  Claim C7. For \<open>n = 1\<close>, with settings of width at least one, \<^verbatim>\<open>fft_fr\<close> returns
  success in both directions and the store it leaves is the old one with \<open>out[0]\<close> set
  to \<open>in[0]\<close>.
\<close>

theorem fft_fr_one:
  assumes "1 \<le> max_width fs"
  shows "fft_fr h out inp False 1 fs = Inr (C_KZG_OK, h(out := h inp))
       \<and> fft_fr h out inp True 1 fs = Inr (C_KZG_OK, h(out := h inp))"
proof -
  have e: "fft_fr_fast h out inp 1 roots rs 1 = h(out := h inp)" for roots rs
    by (simp add: fast_base)
  have c: "fr_inv (fr_from_uint64 1) = (1::'a)"
    by (simp add: fr_inv_def fr_from_uint64_def)
  have s: "fft_fr_scale_loop (h(out := h inp)) out (1::'a) 1 0 = h(out := h inp)"
    by (rule ext) (simp add: scale_loop_apply)
  from assms show ?thesis
    by (simp add: fft_fr_valid is_power_of_two_1 e c s)
qed

theorem fft_fr_one_witness:
  "(1::uint64_t) \<le> max_width \<lparr>max_width = 4, expanded_roots_of_unity = 16, reverse_roots_of_unity = 32\<rparr>
   \<and> fft_fr ((\<lambda>a. 0::rat)(8 := 5)) 0 8 False 1
        \<lparr>max_width = 4, expanded_roots_of_unity = 16, reverse_roots_of_unity = 32\<rparr>
       = Inr (C_KZG_OK, (\<lambda>a. 0::rat)(8 := 5, 0 := 5))
   \<and> fft_fr ((\<lambda>a. 0::rat)(8 := 5)) 0 8 True 1
        \<lparr>max_width = 4, expanded_roots_of_unity = 16, reverse_roots_of_unity = 32\<rparr>
       = Inr (C_KZG_OK, (\<lambda>a. 0::rat)(8 := 5, 0 := 5))"
  using fft_fr_one [of "\<lparr>max_width = 4, expanded_roots_of_unity = 16, reverse_roots_of_unity = 32\<rparr>"
      "(\<lambda>a. 0::rat)(8 := 5)" 0 8]
  by simp

section \<open>The inverse transform\<close>

text \<open>
  Claim C4. For every valid call with \<open>inverse = true\<close> (\<open>n\<close> a power of two, at most
  \<open>max_width\<close>) the call succeeds, and the store it leaves is the engine's transform of
  the input with the inverse-roots table at stride \<open>max_width div n\<close>, every one of the
  \<open>n\<close> slots of \<open>out\<close> multiplied by \<open>fr_inv (fr_from_uint64 n)\<close>, the field inverse of
  the embedding of \<open>n\<close>; the slots outside \<open>out[0..n)\<close> are the engine's.
\<close>

theorem fft_fr_inverse_scaled:
  assumes "is_power_of_two n" and "n \<le> max_width fs"
  shows "fft_fr h out inp True n fs =
     Inr (C_KZG_OK,
       \<lambda>a. if a \<in> {out ..< out + unat n}
           then fr_mul (fft_fr_fast h out inp 1 (reverse_roots_of_unity fs) (max_width fs div n) n a)
                  (fr_inv (fr_from_uint64 n))
           else fft_fr_fast h out inp 1 (reverse_roots_of_unity fs) (max_width fs div n) n a)"
  using assms
  by (simp add: fft_fr_valid is_power_of_two_nonzero scale_loop_whole fr_mul_def cong: if_cong)

theorem fft_fr_inverse_scaled_witness:
  "let fs = \<lparr>max_width = 4, expanded_roots_of_unity = 16, reverse_roots_of_unity = 32\<rparr>;
       h = (\<lambda>a. 0::complex)(8 := 3, 9 := 5, 32 := 1, 33 := - \<i>, 34 := - 1, 35 := \<i>)
   in is_power_of_two 2 \<and> 2 \<le> max_width fs
    \<and> fft_fr h 0 8 True 2 fs =
        Inr (C_KZG_OK,
          \<lambda>a. if a \<in> {0 ..< 0 + unat (2::uint64_t)}
              then fr_mul (fft_fr_fast h 0 8 1 (reverse_roots_of_unity fs) (max_width fs div 2) 2 a)
                     (fr_inv (fr_from_uint64 2))
              else fft_fr_fast h 0 8 1 (reverse_roots_of_unity fs) (max_width fs div 2) 2 a)
    \<and> fr_mul (fft_fr_fast h 0 8 1 (reverse_roots_of_unity fs) (max_width fs div 2) 2 0)
          (fr_inv (fr_from_uint64 2)) = 4
    \<and> fr_mul (fft_fr_fast h 0 8 1 (reverse_roots_of_unity fs) (max_width fs div 2) 2 1)
          (fr_inv (fr_from_uint64 2)) = - 1"
proof -
  let ?fs = "\<lparr>max_width = 4, expanded_roots_of_unity = 16, reverse_roots_of_unity = 32\<rparr>"
  have p: "is_power_of_two 2"
    by (rule is_power_of_two_2)
  have w: "2 \<le> max_width ?fs"
    by simp
  show ?thesis
    unfolding Let_def
    by (intro conjI p w fft_fr_inverse_scaled [OF p w])
      (simp_all add: fast_rec fast_base fast_loop_step fast_loop_stop
        fr_mul_def fr_inv_def fr_from_uint64_def)
qed

section \<open>The butterfly\<close>

text \<open>
  Claim C5. In the recursive case of the engine, with \<open>h2\<close> the store after the two
  recursive calls and no root entry of the loop lying inside the output range, the
  combination step gives for every \<open>i < half\<close>: with
  \<open>t = h2 out[i + half] * root[i * roots_stride]\<close>, the final \<open>out[i + half]\<close> is
  \<open>h2 out[i] - t\<close> and the final \<open>out[i]\<close> is \<open>h2 out[i] + t\<close>; both use the value
  \<open>out[i]\<close> had before the step.
\<close>

theorem fft_fr_fast_butterfly:
  assumes "0 < n div 2"
    and "(\<lambda>m. roots + unat (m * roots_stride)) ` {m. m < n div 2}
           \<inter> {out ..< out + 2 * unat (n div 2)} = {}"
    and "i < n div 2"
  shows "let half = n div 2;
             h1 = fft_fr_fast h out inp (stride * 2) roots (roots_stride * 2) half;
             h2 = fft_fr_fast h1 (out + unat half) (inp + unat stride) (stride * 2) roots (roots_stride * 2) half;
             t = h2 (out + unat i + unat half) * h2 (roots + unat (i * roots_stride));
             h' = fft_fr_fast h out inp stride roots roots_stride n
         in h' (out + unat i + unat half) = h2 (out + unat i) - t
          \<and> h' (out + unat i) = h2 (out + unat i) + t"
proof -
  let ?half = "n div 2"
  let ?h1 = "fft_fr_fast h out inp (stride * 2) roots (roots_stride * 2) ?half"
  let ?h2 = "fft_fr_fast ?h1 (out + unat ?half) (inp + unat stride) (stride * 2) roots (roots_stride * 2) ?half"
  have "0 \<le> i" by simp
  moreover from assms(2)
  have "\<forall>m. m < n div 2 \<longrightarrow> roots + unat (m * roots_stride) \<notin> {out ..< out + 2 * unat (n div 2)}"
    by blast
  ultimately have "fft_fr_fast_loop ?h2 out roots roots_stride ?half 0 (out + unat i) =
           ?h2 (out + unat i) + ?h2 (out + unat i + unat ?half) * ?h2 (roots + unat (i * roots_stride))
       \<and> fft_fr_fast_loop ?h2 out roots roots_stride ?half 0 (out + unat i + unat ?half) =
           ?h2 (out + unat i) - ?h2 (out + unat i + unat ?half) * ?h2 (roots + unat (i * roots_stride))"
    using assms(3) by (intro fast_loop_value half_bound)
  moreover have "fft_fr_fast h out inp stride roots roots_stride n =
      fft_fr_fast_loop ?h2 out roots roots_stride ?half 0"
    by (rule fast_rec [OF assms(1)])
  ultimately show ?thesis
    by (simp add: Let_def)
qed

theorem fft_fr_fast_butterfly_witness:
  "let h = (\<lambda>a. 0::complex)(8 := 3, 9 := 5, 10 := 7, 11 := 1, 16 := 1, 17 := \<i>, 18 := - 1, 19 := - \<i>);
       h1 = fft_fr_fast h 0 8 (1 * 2) 16 (1 * 2) (4 div 2);
       h2 = fft_fr_fast h1 (0 + unat ((4::uint64_t) div 2)) (8 + unat (1::uint64_t)) (1 * 2) 16 (1 * 2) (4 div 2);
       h' = fft_fr_fast h 0 8 1 16 1 4
   in (0::uint64_t) < 4 div 2
    \<and> (\<lambda>m::uint64_t. 16 + unat (m * 1)) ` {m. m < 4 div 2} \<inter> {0 ..< 0 + 2 * unat ((4::uint64_t) div 2)} = {}
    \<and> (1::uint64_t) < 4 div 2
    \<and> h' (0 + unat (1::uint64_t) + unat ((4::uint64_t) div 2))
         = h2 (0 + unat (1::uint64_t))
           - h2 (0 + unat (1::uint64_t) + unat ((4::uint64_t) div 2)) * h2 (16 + unat ((1::uint64_t) * 1))
    \<and> h' (0 + unat (1::uint64_t))
         = h2 (0 + unat (1::uint64_t))
           + h2 (0 + unat (1::uint64_t) + unat ((4::uint64_t) div 2)) * h2 (16 + unat ((1::uint64_t) * 1))
    \<and> h2 1 = - 4 \<and> h2 3 = 4 \<and> h' 1 = - 4 + 4 * \<i> \<and> h' 3 = - 4 - 4 * \<i>"
proof -
  have a: "(0::uint64_t) < 4 div 2" by simp
  have b: "(\<lambda>m::uint64_t. 16 + unat (m * 1)) ` {m. m < 4 div 2}
      \<inter> {0 ..< 0 + 2 * unat ((4::uint64_t) div 2)} = {}"
    by auto
  have c: "(1::uint64_t) < 4 div 2" by simp
  note t = fft_fr_fast_butterfly [OF a b c,
      of "(\<lambda>a. 0::complex)(8 := 3, 9 := 5, 10 := 7, 11 := 1, 16 := 1, 17 := \<i>, 18 := - 1, 19 := - \<i>)"
         8 1, unfolded Let_def]
  show ?thesis
    unfolding Let_def
    apply (intro conjI a b c)
    apply (rule t [THEN conjunct1])
    apply (rule t [THEN conjunct2])
    apply (simp_all add: fast_rec fast_base fast_loop_step fast_loop_stop)
    done
qed

section \<open>What a call writes\<close>

text \<open>
  Claim C8. A call of \<^verbatim>\<open>fft_fr\<close> that returns leaves every slot outside
  \<open>out[0..n)\<close> as it was, and so does the engine for \<open>n \<noteq> 0\<close>: an input buffer and
  root tables that do not overlap \<open>out\<close> keep their contents (the settings object is
  passed by value and not returned). Within the engine the first recursive call changes
  only \<open>out[0..half)\<close>, the second only \<open>out[half..2*half)\<close>; the two ranges are
  disjoint and lie inside \<open>out[0..n)\<close>.
\<close>

theorem fft_fr_frame:
  "(fft_fr h out inp inverse' n fs = Inr (rc, h') \<longrightarrow> (\<forall>a. a \<notin> {out ..< out + unat n} \<longrightarrow> h' a = h a))
   \<and> (n \<noteq> 0 \<longrightarrow> (\<forall>a. a \<notin> {out ..< out + unat n} \<longrightarrow>
          fft_fr_fast h out inp stride roots roots_stride n a = h a))
   \<and> (0 < n div 2 \<longrightarrow>
        (let half = n div 2;
             h1 = fft_fr_fast h out inp (stride * 2) roots (roots_stride * 2) half;
             h2 = fft_fr_fast h1 (out + unat half) (inp + unat stride) (stride * 2) roots (roots_stride * 2) half
         in (\<forall>a. a \<notin> {out ..< out + unat half} \<longrightarrow> h1 a = h a)
          \<and> (\<forall>a. a \<notin> {out + unat half ..< out + 2 * unat half} \<longrightarrow> h2 a = h1 a)
          \<and> {out ..< out + unat half} \<inter> {out + unat half ..< out + 2 * unat half} = {}
          \<and> {out ..< out + unat half} \<union> {out + unat half ..< out + 2 * unat half} \<subseteq> {out ..< out + unat n}))"
proof (intro conjI impI allI)
  fix a
  assume r: "fft_fr h out inp inverse' n fs = Inr (rc, h')" and a: "a \<notin> {out ..< out + unat n}"
  then have nz: "n \<noteq> 0"
    by (auto simp: fft_fr_def)
  from a have "fft_fr_fast h out inp 1 roots' rs' n a = h a" for roots' rs'
    using nz by (rule fast_frame [rotated])
  with r a nz show "h' a = h a"
    by (auto simp: fft_fr_def Let_def scale_loop_whole split: if_splits)
next
  fix a
  assume "n \<noteq> 0" and "a \<notin> {out ..< out + unat n}"
  then show "fft_fr_fast h out inp stride roots roots_stride n a = h a"
    by (rule fast_frame)
next
  assume pos: "0 < n div 2"
  then have nz: "n div 2 \<noteq> 0" by simp
  have le: "2 * unat (n div 2) \<le> unat n"
    by (simp add: unat_half)
  show "let half = n div 2;
             h1 = fft_fr_fast h out inp (stride * 2) roots (roots_stride * 2) half;
             h2 = fft_fr_fast h1 (out + unat half) (inp + unat stride) (stride * 2) roots (roots_stride * 2) half
         in (\<forall>a. a \<notin> {out ..< out + unat half} \<longrightarrow> h1 a = h a)
          \<and> (\<forall>a. a \<notin> {out + unat half ..< out + 2 * unat half} \<longrightarrow> h2 a = h1 a)
          \<and> {out ..< out + unat half} \<inter> {out + unat half ..< out + 2 * unat half} = {}
          \<and> {out ..< out + unat half} \<union> {out + unat half ..< out + 2 * unat half} \<subseteq> {out ..< out + unat n}"
    unfolding Let_def
  proof (intro conjI allI impI)
    fix a assume "a \<notin> {out ..< out + unat (n div 2)}"
    with nz show "fft_fr_fast h out inp (stride * 2) roots (roots_stride * 2) (n div 2) a = h a"
      by (rule fast_frame)
  next
    fix a assume "a \<notin> {out + unat (n div 2) ..< out + 2 * unat (n div 2)}"
    then have "a \<notin> {out + unat (n div 2) ..< out + unat (n div 2) + unat (n div 2)}"
      by auto
    with nz show "fft_fr_fast (fft_fr_fast h out inp (stride * 2) roots (roots_stride * 2) (n div 2))
        (out + unat (n div 2)) (inp + unat stride) (stride * 2) roots (roots_stride * 2) (n div 2) a
        = fft_fr_fast h out inp (stride * 2) roots (roots_stride * 2) (n div 2) a"
      by (rule fast_frame)
  next
    show "{out ..< out + unat (n div 2)} \<inter> {out + unat (n div 2) ..< out + 2 * unat (n div 2)} = {}"
      by auto
  next
    from le show "{out ..< out + unat (n div 2)} \<union> {out + unat (n div 2) ..< out + 2 * unat (n div 2)}
        \<subseteq> {out ..< out + unat n}"
      by auto
  qed
qed

theorem fft_fr_frame_witness:
  "let fs = \<lparr>max_width = 4, expanded_roots_of_unity = 16, reverse_roots_of_unity = 32\<rparr>;
       h = (\<lambda>a. 0::complex)(8 := 3, 9 := 5, 10 := 7, 11 := 1, 16 := 1, 17 := \<i>, 18 := - 1, 19 := - \<i>);
       h' = fft_fr_fast h 0 8 1 16 1 4;
       h1 = fft_fr_fast h 0 8 (1 * 2) 16 (1 * 2) (4 div 2);
       h2 = fft_fr_fast h1 (0 + unat ((4::uint64_t) div 2)) (8 + unat (1::uint64_t)) (1 * 2) 16 (1 * 2) (4 div 2)
   in fft_fr h 0 8 False 4 fs = Inr (C_KZG_OK, h')
    \<and> 9 \<notin> {0 ..< 0 + unat (4::uint64_t)} \<and> h' 9 = h 9
    \<and> 17 \<notin> {0 ..< 0 + unat (4::uint64_t)} \<and> h' 17 = h 17
    \<and> (4::uint64_t) \<noteq> 0 \<and> (0::uint64_t) < 4 div 2
    \<and> 2 \<notin> {0 ..< 0 + unat ((4::uint64_t) div 2)} \<and> h1 2 = h 2
    \<and> 1 \<notin> {0 + unat ((4::uint64_t) div 2) ..< 0 + 2 * unat ((4::uint64_t) div 2)} \<and> h2 1 = h1 1
    \<and> h1 1 = - 4 \<and> h2 2 = 6"
proof -
  let ?fs = "\<lparr>max_width = 4, expanded_roots_of_unity = 16, reverse_roots_of_unity = 32\<rparr>"
  let ?h = "(\<lambda>a. 0::complex)(8 := 3, 9 := 5, 10 := 7, 11 := 1, 16 := 1, 17 := \<i>, 18 := - 1, 19 := - \<i>)"
  let ?h' = "fft_fr_fast ?h 0 8 1 16 1 4"
  have r: "fft_fr ?h 0 8 False 4 ?fs = Inr (C_KZG_OK, ?h')"
    by (simp add: fft_fr_valid is_power_of_two_4)
  have nz: "(4::uint64_t) \<noteq> 0" and pos: "(0::uint64_t) < 4 div 2"
    by simp_all
  note t = fft_fr_frame [of ?h 0 8 False 4 ?fs C_KZG_OK ?h' 1 16 1, unfolded Let_def]
  from t r have f1: "\<forall>a. a \<notin> {0 ..< 0 + unat (4::uint64_t)} \<longrightarrow> ?h' a = ?h a"
    by blast
  from t pos have f2: "\<forall>a. a \<notin> {0 ..< 0 + unat ((4::uint64_t) div 2)} \<longrightarrow>
      fft_fr_fast ?h 0 8 (1 * 2) 16 (1 * 2) (4 div 2) a = ?h a"
    by blast
  from t pos have f3: "\<forall>a. a \<notin> {0 + unat ((4::uint64_t) div 2) ..< 0 + 2 * unat ((4::uint64_t) div 2)} \<longrightarrow>
      fft_fr_fast (fft_fr_fast ?h 0 8 (1 * 2) 16 (1 * 2) (4 div 2))
        (0 + unat ((4::uint64_t) div 2)) (8 + unat (1::uint64_t)) (1 * 2) 16 (1 * 2) (4 div 2) a
      = fft_fr_fast ?h 0 8 (1 * 2) 16 (1 * 2) (4 div 2) a"
    by blast
  have m: "9 \<notin> {0 ..< 0 + unat (4::uint64_t)}" "17 \<notin> {0 ..< 0 + unat (4::uint64_t)}"
      "2 \<notin> {0 ..< 0 + unat ((4::uint64_t) div 2)}"
      "1 \<notin> {0 + unat ((4::uint64_t) div 2) ..< 0 + 2 * unat ((4::uint64_t) div 2)}"
    by simp_all
  show ?thesis
    unfolding Let_def
    apply (intro conjI r m nz pos f1 [rule_format, OF m(1)] f1 [rule_format, OF m(2)]
        f2 [rule_format, OF m(3)] f3 [rule_format, OF m(4)])
    apply (simp_all add: fast_rec fast_base fast_loop_step fast_loop_stop)
    done
qed

section \<open>Equivalence to direct evaluation\<close>

text \<open>
  Claim C1. Let \<open>n\<close> be a power of two, let the strided views fit into 64 bits and not
  overlap the output, and let the root table hold the powers \<open>w ^ m\<close> of a root of
  unity \<open>w\<close> of order \<open>n\<close> (\<open>w ^ n = 1\<close> and no smaller positive power is 1). Then
  for every \<open>i < n\<close> the engine's output \<open>out[i]\<close> is the direct evaluation, the sum
  over \<open>j\<close> of \<open>in[j * stride] * root[((i * j) mod n) * roots_stride]\<close>, and the store
  \<^verbatim>\<open>fft_fr_fast\<close> leaves is the store \<^verbatim>\<open>fft_fr_slow\<close> leaves.
\<close>

theorem fft_fr_fast_direct:
  assumes "is_power_of_two n"
    and "unat n * unat stride < 2 ^ 64" and "unat n * unat roots_stride < 2 ^ 64"
    and "(\<lambda>j. inp + j * unat stride) ` {..<unat n} \<inter> {out ..< out + unat n} = {}"
    and "(\<lambda>m. roots + m * unat roots_stride) ` {..<unat n} \<inter> {out ..< out + unat n} = {}"
    and "map (\<lambda>m. h (roots + m * unat roots_stride)) [0..<unat n] = map (\<lambda>m. w ^ m) [0..<unat n]"
    and "w ^ unat n = 1" and "1 \<notin> (\<lambda>m. w ^ m) ` {1..<unat n}"
    and "i < unat n"
  shows "fft_fr_fast h out inp stride roots roots_stride n (out + i) =
           direct_evaluation h inp (unat stride) roots (unat roots_stride) (unat n) i
       \<and> fft_fr_fast h out inp stride roots roots_stride n =
           fft_fr_slow h out inp stride roots roots_stride n"
proof -
  from assms(1) obtain k where k: "k < 64" and un: "unat n = 2 ^ k"
    by (auto simp: is_power_of_two_unat)
  then have "unat n = unat (2 ^ k :: uint64_t)"
    by (simp add: unat_p2)
  then have n: "n = 2 ^ k"
    by (simp only: word_unat_eq_iff)
  from assms(1) have nz: "n \<noteq> 0"
    by (rule is_power_of_two_nonzero)
  note ov = assms(2,3) [unfolded un]
  from assms(4) have io: "\<forall>j<2 ^ k. inp + j * unat stride \<notin> {out ..< out + 2 ^ k}"
    unfolding un outside_iff .
  from assms(5) have ro: "\<forall>m<2 ^ k. roots + m * unat roots_stride \<notin> {out ..< out + 2 ^ k}"
    unfolding un outside_iff .
  from assms(6) have tab: "\<forall>m<2 ^ k. h (roots + m * unat roots_stride) = w ^ m"
    unfolding un table_entries .
  have half: "k = 0 \<or> w ^ (2 ^ (k - 1)) = - 1"
  proof (cases k)
    case 0 then show ?thesis by simp
  next
    case (Suc k')
    with assms(7,8) have "w ^ (2 ^ k') = - 1"
      unfolding un by (intro primitive_half) simp_all
    with Suc show ?thesis by simp
  qed
  have direct: "direct_evaluation h inp (unat stride) roots (unat roots_stride) (2 ^ k) i' =
      (\<Sum>j<2 ^ k. h (inp + j * unat stride) * w ^ (i' * j))" for i'
    unfolding direct_evaluation_def
  proof (rule sum.cong [OF refl])
    fix j assume "j \<in> {..<(2::nat) ^ k}"
    have "(i' * j) mod 2 ^ k < 2 ^ k" by simp
    with tab have "h (roots + (i' * j) mod 2 ^ k * unat roots_stride) = w ^ ((i' * j) mod 2 ^ k)"
      by blast
    also have "\<dots> = w ^ (i' * j)"
      using assms(7) unfolding un by (rule power_mod_unity)
    finally show "h (inp + j * unat stride) * h (roots + (i' * j) mod 2 ^ k * unat roots_stride) =
        h (inp + j * unat stride) * w ^ (i' * j)"
      by simp
  qed
  have fast: "fft_fr_fast h out inp stride roots roots_stride n (out + i') =
      direct_evaluation h inp (unat stride) roots (unat roots_stride) (2 ^ k) i'" if "i' < 2 ^ k" for i'
  proof -
    have "fft_fr_fast h out inp stride roots roots_stride n (out + i') =
        fast_value k (\<lambda>j. h (inp + j * unat stride)) (\<lambda>m. h (roots + m * unat roots_stride)) i'"
      by (rule fast_is_value [OF k n ov io ro that])
    also have "\<dots> = (\<Sum>j<2 ^ k. h (inp + j * unat stride) * w ^ (i' * j))"
      using tab by (intro fast_value_sum half that) simp
    finally show ?thesis
      by (simp only: direct)
  qed
  have "fft_fr_fast h out inp stride roots roots_stride n a =
      fft_fr_slow h out inp stride roots roots_stride n a" for a
  proof (cases "a \<in> {out ..< out + 2 ^ k}")
    case True
    then have "a - out < 2 ^ k" and "a = out + (a - out)" by auto
    with fast [of "a - out"] True show ?thesis
      by (simp add: slow_is_direct [OF k n ov io ro])
  next
    case False
    with nz have "fft_fr_fast h out inp stride roots roots_stride n a = h a"
      by (intro fast_frame) (simp_all add: un)
    with False show ?thesis
      by (auto simp: slow_is_direct [OF k n ov io ro])
  qed
  then have "fft_fr_fast h out inp stride roots roots_stride n =
      fft_fr_slow h out inp stride roots roots_stride n"
    by (rule ext)
  with fast [of i] assms(9) show ?thesis
    by (simp add: un)
qed

theorem fft_fr_fast_direct_witness:
  "let h = (\<lambda>a. 0::complex)(8 := 3, 9 := 5, 10 := 7, 11 := 1, 16 := 1, 17 := \<i>, 18 := - 1, 19 := - \<i>)
   in is_power_of_two 4
    \<and> unat (4::uint64_t) * unat (1::uint64_t) < 2 ^ 64
    \<and> (\<lambda>j. 8 + j * unat (1::uint64_t)) ` {..<unat (4::uint64_t)} \<inter> {0 ..< 0 + unat (4::uint64_t)} = {}
    \<and> (\<lambda>m. 16 + m * unat (1::uint64_t)) ` {..<unat (4::uint64_t)} \<inter> {0 ..< 0 + unat (4::uint64_t)} = {}
    \<and> map (\<lambda>m. h (16 + m * unat (1::uint64_t))) [0..<unat (4::uint64_t)]
        = map (\<lambda>m. \<i> ^ m) [0..<unat (4::uint64_t)]
    \<and> \<i> ^ unat (4::uint64_t) = 1 \<and> 1 \<notin> (\<lambda>m. \<i> ^ m) ` {1..<unat (4::uint64_t)}
    \<and> 1 < unat (4::uint64_t)
    \<and> fft_fr_fast h 0 8 1 16 1 4 (0 + 1)
        = direct_evaluation h 8 (unat (1::uint64_t)) 16 (unat (1::uint64_t)) (unat (4::uint64_t)) 1
    \<and> fft_fr_fast h 0 8 1 16 1 4 = fft_fr_slow h 0 8 1 16 1 4
    \<and> fft_fr_fast h 0 8 1 16 1 4 1 = - 4 + 4 * \<i>"
proof -
  let ?h = "(\<lambda>a. 0::complex)(8 := 3, 9 := 5, 10 := 7, 11 := 1, 16 := 1, 17 := \<i>, 18 := - 1, 19 := - \<i>)"
  have a: "unat (4::uint64_t) * unat (1::uint64_t) < 2 ^ 64"
    by simp
  have b: "(\<lambda>j. 8 + j * unat (1::uint64_t)) ` {..<unat (4::uint64_t)} \<inter> {0 ..< 0 + unat (4::uint64_t)} = {}"
    by auto
  have c: "(\<lambda>m. 16 + m * unat (1::uint64_t)) ` {..<unat (4::uint64_t)} \<inter> {0 ..< 0 + unat (4::uint64_t)} = {}"
    by auto
  have d: "map (\<lambda>m. ?h (16 + m * unat (1::uint64_t))) [0..<unat (4::uint64_t)]
        = map (\<lambda>m. \<i> ^ m) [0..<unat (4::uint64_t)]"
    by (simp add: upt_4 i_pow)
  have e: "\<i> ^ unat (4::uint64_t) = 1"
    by (simp add: i_pow)
  have f: "1 \<notin> (\<lambda>m. \<i> ^ m) ` {1..<unat (4::uint64_t)}"
    by (simp add: ivl_1_4 i_pow complex_eq_iff)
  have g: "1 < unat (4::uint64_t)"
    by simp
  note t = fft_fr_fast_direct [OF is_power_of_two_4 a a b c d e f g]
  show ?thesis
    unfolding Let_def
    apply (intro conjI is_power_of_two_4 a b c d e f g t [THEN conjunct1] t [THEN conjunct2])
    apply (simp add: fast_rec fast_base fast_loop_step fast_loop_stop)
    done
qed

section \<open>Stride independence\<close>

text \<open>
  Claim C6. Let \<open>n\<close> be a power of two, \<open>fs1\<close> settings of width exactly \<open>n\<close> and
  \<open>fs2\<close> settings of a width at least \<open>n\<close> whose tables extend those of \<open>fs1\<close>: entry
  \<open>m\<close> of a table of \<open>fs1\<close> is entry \<open>m * (max_width fs2 div n)\<close> of the table of
  \<open>fs2\<close>. With the input and the tables outside the output buffer, \<^verbatim>\<open>fft_fr\<close> returns
  the same code and leaves the same store with either settings object, in both
  directions. The instance after the theorem has \<open>n = 4\<close> with widths 4 and 8, so that
  the engine reads the table entry at index \<open>1 * stride\<close>: the entries between the
  strided ones differ from them, the four outputs are given for both directions, and a
  stride that is off by five changes \<open>out[1]\<close>.
\<close>

theorem fft_fr_stride_independent:
  assumes "is_power_of_two n" and "max_width fs1 = n" and "n \<le> max_width fs2"
    and "map (\<lambda>m. h (expanded_roots_of_unity fs1 + m)) [0..<unat n] =
         map (\<lambda>m. h (expanded_roots_of_unity fs2 + m * unat (max_width fs2 div n))) [0..<unat n]"
    and "map (\<lambda>m. h (reverse_roots_of_unity fs1 + m)) [0..<unat n] =
         map (\<lambda>m. h (reverse_roots_of_unity fs2 + m * unat (max_width fs2 div n))) [0..<unat n]"
    and "{inp ..< inp + unat n} \<inter> {out ..< out + unat n} = {}"
    and "{expanded_roots_of_unity fs1 ..< expanded_roots_of_unity fs1 + unat (max_width fs1)}
           \<inter> {out ..< out + unat n} = {}"
    and "{reverse_roots_of_unity fs1 ..< reverse_roots_of_unity fs1 + unat (max_width fs1)}
           \<inter> {out ..< out + unat n} = {}"
    and "{expanded_roots_of_unity fs2 ..< expanded_roots_of_unity fs2 + unat (max_width fs2)}
           \<inter> {out ..< out + unat n} = {}"
    and "{reverse_roots_of_unity fs2 ..< reverse_roots_of_unity fs2 + unat (max_width fs2)}
           \<inter> {out ..< out + unat n} = {}"
  shows "fft_fr h out inp inverse' n fs1 = fft_fr h out inp inverse' n fs2"
proof -
  from assms(1) obtain k where k: "k < 64" and n: "n = 2 ^ k" and un: "unat n = 2 ^ k"
    by (rule pow2_cases)
  from assms(1) have nz: "n \<noteq> 0"
    by (rule is_power_of_two_nonzero)
  then have one: "max_width fs1 div n = 1"
    by (simp add: assms(2) word_div_same)
  let ?s = "max_width fs2 div n"
  have b1: "2 ^ k * unat (1::uint64_t) < 2 ^ 64"
    using p2_lt64 [OF k] by simp
  have b2: "2 ^ k * unat ?s < 2 ^ 64"
    using stride_bound [OF nz, of "max_width fs2"] by (simp add: un)
  have io: "\<forall>j<2 ^ k. inp + j \<notin> {out ..< out + 2 ^ k}"
    using range_outside [OF assms(6), of "2 ^ k" "\<lambda>j. j"] by (simp add: un)
  have idx: "\<forall>m<2 ^ k. m * unat ?s < unat (max_width fs2)"
    using stride_index [OF assms(3) nz] by (simp add: un)
  have eq: "fft_fr_fast h out inp 1 T1 1 n = fft_fr_fast h out inp 1 T2 ?s n"
    if t1: "{T1 ..< T1 + unat (max_width fs1)} \<inter> {out ..< out + unat n} = {}"
      and t2: "{T2 ..< T2 + unat (max_width fs2)} \<inter> {out ..< out + unat n} = {}"
      and tab: "map (\<lambda>m. h (T1 + m)) [0..<unat n] = map (\<lambda>m. h (T2 + m * unat ?s)) [0..<unat n]"
    for T1 T2
  proof (rule fast_same_store [OF k n b2 b1 io])
    show "\<forall>m<2 ^ k. T2 + m * unat ?s \<notin> {out ..< out + 2 ^ k}"
      using range_outside [OF t2 idx] by (simp add: un)
    show "\<forall>m<2 ^ k. T1 + m * unat (1::uint64_t) \<notin> {out ..< out + 2 ^ k}"
      using range_outside [OF t1, of "2 ^ k" "\<lambda>m. m"] by (simp add: un assms(2))
    show "\<forall>m<2 ^ k. h (T1 + m * unat (1::uint64_t)) = h (T2 + m * unat ?s)"
      using tab by (simp add: table_entries un)
  qed
  have le1: "n \<le> max_width fs1"
    by (simp add: assms(2))
  have "fft_fr h out inp inverse' n fs1 =
     (if inverse' then
        Inr (C_KZG_OK, fft_fr_scale_loop
          (fft_fr_fast h out inp 1 (reverse_roots_of_unity fs2) ?s n)
          out (fr_inv (fr_from_uint64 n)) n 0)
      else Inr (C_KZG_OK, fft_fr_fast h out inp 1 (expanded_roots_of_unity fs2) ?s n))"
    unfolding fft_fr_valid [OF nz le1 assms(1)] one
    by (simp only: eq [OF assms(7,9,4)] eq [OF assms(8,10,5)])
  also have "\<dots> = fft_fr h out inp inverse' n fs2"
    by (simp only: fft_fr_valid [OF nz assms(3,1)])
  finally show ?thesis .
qed

theorem fft_fr_stride_independent_witness:
  "let fs1 = \<lparr>max_width = 4, expanded_roots_of_unity = 16, reverse_roots_of_unity = 20\<rparr>;
       fs2 = \<lparr>max_width = 8, expanded_roots_of_unity = 32, reverse_roots_of_unity = 48\<rparr>;
       h = (\<lambda>a. 0::rat)(8 := 3, 9 := 5, 10 := 7, 11 := 1,
              16 := 1, 17 := 2, 18 := 3, 19 := 4,
              20 := 1, 21 := 5, 22 := 6, 23 := 7,
              32 := 1, 33 := 10, 34 := 2, 35 := 11, 36 := 3, 37 := 12, 38 := 4, 39 := 13,
              48 := 1, 49 := 20, 50 := 5, 51 := 21, 52 := 6, 53 := 22, 54 := 7, 55 := 23)
   in is_power_of_two 4 \<and> max_width fs1 = 4 \<and> 4 \<le> max_width fs2
    \<and> map (\<lambda>m. h (expanded_roots_of_unity fs1 + m)) [0..<unat (4::uint64_t)] =
        map (\<lambda>m. h (expanded_roots_of_unity fs2 + m * unat (max_width fs2 div 4))) [0..<unat (4::uint64_t)]
    \<and> map (\<lambda>m. h (reverse_roots_of_unity fs1 + m)) [0..<unat (4::uint64_t)] =
        map (\<lambda>m. h (reverse_roots_of_unity fs2 + m * unat (max_width fs2 div 4))) [0..<unat (4::uint64_t)]
    \<and> {8 ..< 8 + unat (4::uint64_t)} \<inter> {0 ..< 0 + unat (4::uint64_t)} = {}
    \<and> {expanded_roots_of_unity fs1 ..< expanded_roots_of_unity fs1 + unat (max_width fs1)}
           \<inter> {0 ..< 0 + unat (4::uint64_t)} = {}
    \<and> {reverse_roots_of_unity fs1 ..< reverse_roots_of_unity fs1 + unat (max_width fs1)}
           \<inter> {0 ..< 0 + unat (4::uint64_t)} = {}
    \<and> {expanded_roots_of_unity fs2 ..< expanded_roots_of_unity fs2 + unat (max_width fs2)}
           \<inter> {0 ..< 0 + unat (4::uint64_t)} = {}
    \<and> {reverse_roots_of_unity fs2 ..< reverse_roots_of_unity fs2 + unat (max_width fs2)}
           \<inter> {0 ..< 0 + unat (4::uint64_t)} = {}
    \<and> fft_fr h 0 8 False 4 fs1 = fft_fr h 0 8 False 4 fs2
    \<and> fft_fr h 0 8 True 4 fs1 = fft_fr h 0 8 True 4 fs2
    \<and> (\<exists>H. fft_fr h 0 8 False 4 fs2 = Inr (C_KZG_OK, H)
          \<and> H 0 = 16 \<and> H 1 = 4 \<and> H 2 = 4 \<and> H 3 = - 12)
    \<and> (\<exists>H. fft_fr h 0 8 True 4 fs2 = Inr (C_KZG_OK, H)
          \<and> H 0 = 4 \<and> H 1 = 4 \<and> H 2 = 1 \<and> H 3 = - 6)
    \<and> fft_fr_fast h 0 8 1 (expanded_roots_of_unity fs2) (max_width fs2 div 4 + 5) 4 1 \<noteq> 4"
proof -
  let ?fs1 = "\<lparr>max_width = 4, expanded_roots_of_unity = 16, reverse_roots_of_unity = 20\<rparr>"
  let ?fs2 = "\<lparr>max_width = 8, expanded_roots_of_unity = 32, reverse_roots_of_unity = 48\<rparr>"
  let ?h = "(\<lambda>a. 0::rat)(8 := 3, 9 := 5, 10 := 7, 11 := 1,
              16 := 1, 17 := 2, 18 := 3, 19 := 4,
              20 := 1, 21 := 5, 22 := 6, 23 := 7,
              32 := 1, 33 := 10, 34 := 2, 35 := 11, 36 := 3, 37 := 12, 38 := 4, 39 := 13,
              48 := 1, 49 := 20, 50 := 5, 51 := 21, 52 := 6, 53 := 22, 54 := 7, 55 := 23)"
  have a: "max_width ?fs1 = 4" "4 \<le> max_width ?fs2"
    by simp_all
  have b: "map (\<lambda>m. ?h (expanded_roots_of_unity ?fs1 + m)) [0..<unat (4::uint64_t)] =
        map (\<lambda>m. ?h (expanded_roots_of_unity ?fs2 + m * unat (max_width ?fs2 div 4))) [0..<unat (4::uint64_t)]"
    by (simp add: upt_4)
  have c: "map (\<lambda>m. ?h (reverse_roots_of_unity ?fs1 + m)) [0..<unat (4::uint64_t)] =
        map (\<lambda>m. ?h (reverse_roots_of_unity ?fs2 + m * unat (max_width ?fs2 div 4))) [0..<unat (4::uint64_t)]"
    by (simp add: upt_4)
  have d: "{8 ..< 8 + unat (4::uint64_t)} \<inter> {0 ..< 0 + unat (4::uint64_t)} = {}"
    by simp
  have e: "{expanded_roots_of_unity ?fs1 ..< expanded_roots_of_unity ?fs1 + unat (max_width ?fs1)}
           \<inter> {0 ..< 0 + unat (4::uint64_t)} = {}"
      "{reverse_roots_of_unity ?fs1 ..< reverse_roots_of_unity ?fs1 + unat (max_width ?fs1)}
           \<inter> {0 ..< 0 + unat (4::uint64_t)} = {}"
      "{expanded_roots_of_unity ?fs2 ..< expanded_roots_of_unity ?fs2 + unat (max_width ?fs2)}
           \<inter> {0 ..< 0 + unat (4::uint64_t)} = {}"
      "{reverse_roots_of_unity ?fs2 ..< reverse_roots_of_unity ?fs2 + unat (max_width ?fs2)}
           \<inter> {0 ..< 0 + unat (4::uint64_t)} = {}"
    by simp_all
  note t = fft_fr_stride_independent [OF is_power_of_two_4 a b c d e]
  have f: "\<exists>H. fft_fr ?h 0 8 False 4 ?fs2 = Inr (C_KZG_OK, H)
          \<and> H 0 = 16 \<and> H 1 = 4 \<and> H 2 = 4 \<and> H 3 = - 12"
    by (simp add: fft_fr_valid is_power_of_two_4 fast_rec fast_base fast_loop_step fast_loop_stop)
  have g: "\<exists>H. fft_fr ?h 0 8 True 4 ?fs2 = Inr (C_KZG_OK, H)
          \<and> H 0 = 4 \<and> H 1 = 4 \<and> H 2 = 1 \<and> H 3 = - 6"
    by (simp add: fft_fr_valid is_power_of_two_4 scale_loop_whole fr_inv_def fr_from_uint64_def
        fast_rec fast_base fast_loop_step fast_loop_stop)
  have w: "fft_fr_fast ?h 0 8 1 (expanded_roots_of_unity ?fs2) (max_width ?fs2 div 4 + 5) 4 1 \<noteq> 4"
    by (simp add: fast_rec fast_base fast_loop_step fast_loop_stop)
  show ?thesis
    unfolding Let_def
    by (intro conjI is_power_of_two_4 a b c d e t f g w)
qed

section \<open>The unused table\<close>

text \<open>
  Claim C10. Take a valid call and overwrite any set \<open>U\<close> of slots that meets neither
  the input, nor the output, nor the table the direction uses (the unused table, for
  one) with arbitrary values \<open>g\<close>; let the settings differ in the pointer to the unused
  table. Both runs return success, the second store is the first one with \<open>U\<close>
  overwritten by \<open>g\<close>, and the \<open>n\<close> output slots are the same.
\<close>

theorem fft_fr_unused_table:
  assumes "is_power_of_two n" and "n \<le> max_width fs"
    and "max_width fs' = max_width fs"
    and "(if inverse' then reverse_roots_of_unity fs' else expanded_roots_of_unity fs') =
         (if inverse' then reverse_roots_of_unity fs else expanded_roots_of_unity fs)"
    and "{inp ..< inp + unat n} \<inter> {out ..< out + unat n} = {}"
    and "{(if inverse' then reverse_roots_of_unity fs else expanded_roots_of_unity fs) ..<
          (if inverse' then reverse_roots_of_unity fs else expanded_roots_of_unity fs) + unat (max_width fs)}
           \<inter> {out ..< out + unat n} = {}"
    and "U \<inter> ({inp ..< inp + unat n} \<union> {out ..< out + unat n} \<union>
          {(if inverse' then reverse_roots_of_unity fs else expanded_roots_of_unity fs) ..<
           (if inverse' then reverse_roots_of_unity fs else expanded_roots_of_unity fs) + unat (max_width fs)}) = {}"
  shows "\<exists>H. fft_fr h out inp inverse' n fs = Inr (C_KZG_OK, H)
       \<and> fft_fr (override_on h g U) out inp inverse' n fs' = Inr (C_KZG_OK, override_on H g U)
       \<and> (\<forall>i<unat n. override_on H g U (out + i) = H (out + i))"
proof -
  from assms(1) obtain k where k: "k < 64" and n: "n = 2 ^ k" and un: "unat n = 2 ^ k"
    by (rule pow2_cases)
  from assms(1) have nz: "n \<noteq> 0"
    by (rule is_power_of_two_nonzero)
  define T where "T = (if inverse' then reverse_roots_of_unity fs else expanded_roots_of_unity fs)"
  note a4 = assms(4) [folded T_def] and a6 = assms(6) [folded T_def] and a7 = assms(7) [folded T_def]
  let ?s = "max_width fs div n"
  let ?h' = "override_on h g U"
  have b: "2 ^ k * unat ?s < 2 ^ 64"
    using stride_bound [OF nz, of "max_width fs"] by (simp add: un)
  have io: "\<forall>j<2 ^ k. inp + j \<notin> {out ..< out + 2 ^ k}"
    using range_outside [OF assms(5), of "2 ^ k" "\<lambda>j. j"] by (simp add: un)
  have idx: "\<forall>m<2 ^ k. m * unat ?s < unat (max_width fs)"
    using stride_index [OF assms(2) nz] by (simp add: un)
  have ro: "\<forall>m<2 ^ k. T + m * unat ?s \<notin> {out ..< out + 2 ^ k}"
    using range_outside [OF a6 idx] by (simp add: un)
  from a7 have U1: "U \<inter> {inp ..< inp + unat n} = {}"
    and U2: "U \<inter> {out ..< out + unat n} = {}"
    and U3: "U \<inter> {T ..< T + unat (max_width fs)} = {}"
    by blast+
  have i': "\<forall>j<2 ^ k. ?h' (inp + j) = h (inp + j)"
  proof (intro allI impI)
    fix j :: nat assume "j < 2 ^ k"
    then have "inp + j \<in> {inp ..< inp + unat n}" by (simp add: un)
    with U1 have "inp + j \<notin> U" by blast
    then show "?h' (inp + j) = h (inp + j)" by simp
  qed
  have r': "\<forall>m<2 ^ k. ?h' (T + m * unat ?s) = h (T + m * unat ?s)"
  proof (intro allI impI)
    fix m :: nat assume "m < 2 ^ k"
    with idx have "T + m * unat ?s \<in> {T ..< T + unat (max_width fs)}" by simp
    with U3 have "T + m * unat ?s \<notin> U" by blast
    then show "?h' (T + m * unat ?s) = h (T + m * unat ?s)" by simp
  qed
  let ?E = "fft_fr_fast h out inp 1 T ?s n"
  have E': "fft_fr_fast ?h' out inp 1 T ?s n a =
      (if a \<in> {out ..< out + 2 ^ k} then ?E a else ?h' a)" for a
    by (rule fast_agree [OF k n b b io ro ro i' r'])
  have E: "?E a = h a" if "a \<notin> {out ..< out + 2 ^ k}" for a
    using nz that by (intro fast_frame) (simp_all add: un)
  have eng: "fft_fr_fast ?h' out inp 1 T ?s n = override_on ?E g U"
  proof (rule ext)
    fix a
    show "fft_fr_fast ?h' out inp 1 T ?s n a = override_on ?E g U a"
    proof (cases "a \<in> {out ..< out + 2 ^ k}")
      case True
      with U2 have "a \<notin> U" by (auto simp: un)
      with True show ?thesis by (simp add: E')
    next
      case False
      then have "fft_fr_fast ?h' out inp 1 T ?s n a = ?h' a"
        by (auto simp: E')
      also have "\<dots> = override_on (fft_fr_fast h out inp 1 T ?s n) g U a"
        using False by (simp add: E override_on_def)
      finally show ?thesis .
    qed
  qed
  have sc: "fft_fr_scale_loop (override_on X g U) out c n 0 =
      override_on (fft_fr_scale_loop X out c n 0) g U" for X :: "'a heap" and c
  proof (rule ext)
    fix a
    show "fft_fr_scale_loop (override_on X g U) out c n 0 a =
        override_on (fft_fr_scale_loop X out c n 0) g U a"
      using U2 by (auto simp: scale_loop_whole override_on_def)
  qed
  let ?H = "if inverse' then fft_fr_scale_loop ?E out (fr_inv (fr_from_uint64 n)) n 0 else ?E"
  have le': "n \<le> max_width fs'"
    by (simp add: assms(2,3))
  have 1: "fft_fr h out inp inverse' n fs = Inr (C_KZG_OK, ?H)"
    by (simp add: fft_fr_valid [OF nz assms(2,1)] T_def)
  have T': "reverse_roots_of_unity fs' = T" if "inverse'"
    using a4 that by simp
  have T'': "expanded_roots_of_unity fs' = T" if "\<not> inverse'"
    using a4 that by simp
  have 2: "fft_fr ?h' out inp inverse' n fs' = Inr (C_KZG_OK, override_on ?H g U)"
  proof (cases inverse')
    case True
    then show ?thesis
      unfolding fft_fr_valid [OF nz le' assms(1)] assms(3)
      by (simp only: T' [OF True] if_True eng sc)
  next
    case False
    then show ?thesis
      unfolding fft_fr_valid [OF nz le' assms(1)] assms(3)
      by (simp only: T'' [OF False] if_False eng)
  qed
  have 3: "\<forall>i<unat n. override_on ?H g U (out + i) = ?H (out + i)"
  proof (intro allI impI)
    fix i assume "i < unat n"
    then have "out + i \<in> {out ..< out + unat n}" by simp
    with U2 have "out + i \<notin> U" by blast
    then show "override_on ?H g U (out + i) = ?H (out + i)" by simp
  qed
  from 1 2 3 show ?thesis by blast
qed

theorem fft_fr_unused_table_witness:
  "let fs = \<lparr>max_width = 4, expanded_roots_of_unity = 16, reverse_roots_of_unity = 32\<rparr>;
       fs' = \<lparr>max_width = 4, expanded_roots_of_unity = 16, reverse_roots_of_unity = 48\<rparr>;
       h = (\<lambda>a. 0::complex)(8 := 3, 9 := 5, 10 := 7, 11 := 1, 16 := 1, 17 := \<i>, 18 := - 1, 19 := - \<i>,
              32 := 1, 33 := - \<i>, 34 := - 1, 35 := \<i>);
       g = (\<lambda>a. 7::complex);
       U = {32 ..< 36}
   in is_power_of_two 4 \<and> 4 \<le> max_width fs \<and> max_width fs' = max_width fs
    \<and> (if False then reverse_roots_of_unity fs' else expanded_roots_of_unity fs') =
        (if False then reverse_roots_of_unity fs else expanded_roots_of_unity fs)
    \<and> {8 ..< 8 + unat (4::uint64_t)} \<inter> {0 ..< 0 + unat (4::uint64_t)} = {}
    \<and> {(if False then reverse_roots_of_unity fs else expanded_roots_of_unity fs) ..<
         (if False then reverse_roots_of_unity fs else expanded_roots_of_unity fs) + unat (max_width fs)}
           \<inter> {0 ..< 0 + unat (4::uint64_t)} = {}
    \<and> U \<inter> ({8 ..< 8 + unat (4::uint64_t)} \<union> {0 ..< 0 + unat (4::uint64_t)} \<union>
          {(if False then reverse_roots_of_unity fs else expanded_roots_of_unity fs) ..<
           (if False then reverse_roots_of_unity fs else expanded_roots_of_unity fs) + unat (max_width fs)}) = {}
    \<and> (\<exists>H. fft_fr h 0 8 False 4 fs = Inr (C_KZG_OK, H)
          \<and> fft_fr (override_on h g U) 0 8 False 4 fs' = Inr (C_KZG_OK, override_on H g U)
          \<and> 1 < unat (4::uint64_t)
          \<and> override_on H g U (0 + 1) = H (0 + 1)
          \<and> H 1 = - 4 + 4 * \<i>)"
proof -
  let ?fs = "\<lparr>max_width = 4, expanded_roots_of_unity = 16, reverse_roots_of_unity = 32\<rparr>"
  let ?fs' = "\<lparr>max_width = 4, expanded_roots_of_unity = 16, reverse_roots_of_unity = 48\<rparr>"
  let ?h = "(\<lambda>a. 0::complex)(8 := 3, 9 := 5, 10 := 7, 11 := 1, 16 := 1, 17 := \<i>, 18 := - 1, 19 := - \<i>,
              32 := 1, 33 := - \<i>, 34 := - 1, 35 := \<i>)"
  let ?g = "\<lambda>a::nat. 7::complex"
  let ?U = "{32 ..< 36::nat}"
  have a: "4 \<le> max_width ?fs" "max_width ?fs' = max_width ?fs"
      "(if False then reverse_roots_of_unity ?fs' else expanded_roots_of_unity ?fs') =
        (if False then reverse_roots_of_unity ?fs else expanded_roots_of_unity ?fs)"
    by simp_all
  have b: "{8 ..< 8 + unat (4::uint64_t)} \<inter> {0 ..< 0 + unat (4::uint64_t)} = {}"
    by simp
  have c: "{(if False then reverse_roots_of_unity ?fs else expanded_roots_of_unity ?fs) ..<
         (if False then reverse_roots_of_unity ?fs else expanded_roots_of_unity ?fs) + unat (max_width ?fs)}
           \<inter> {0 ..< 0 + unat (4::uint64_t)} = {}"
    by simp
  have d: "?U \<inter> ({8 ..< 8 + unat (4::uint64_t)} \<union> {0 ..< 0 + unat (4::uint64_t)} \<union>
          {(if False then reverse_roots_of_unity ?fs else expanded_roots_of_unity ?fs) ..<
           (if False then reverse_roots_of_unity ?fs else expanded_roots_of_unity ?fs) + unat (max_width ?fs)}) = {}"
    by auto
  have one: "1 < unat (4::uint64_t)" by simp
  from fft_fr_unused_table [OF is_power_of_two_4 a b c d, of ?h ?g]
  obtain H where H: "fft_fr ?h 0 8 False 4 ?fs = Inr (C_KZG_OK, H)"
      "fft_fr (override_on ?h ?g ?U) 0 8 False 4 ?fs' = Inr (C_KZG_OK, override_on H ?g ?U)"
      "\<forall>i<unat (4::uint64_t). override_on H ?g ?U (0 + i) = H (0 + i)"
    by blast
  from H(3) one have e: "override_on H ?g ?U (0 + 1) = H (0 + 1)"
    by blast
  have "fft_fr ?h 0 8 False 4 ?fs = Inr (C_KZG_OK, fft_fr_fast ?h 0 8 1 16 1 4)"
    by (simp add: fft_fr_valid is_power_of_two_4)
  with H(1) have "H = fft_fr_fast ?h 0 8 1 16 1 4" by simp
  then have f: "H 1 = - 4 + 4 * \<i>"
    by (simp add: fast_rec fast_base fast_loop_step fast_loop_stop)
  from H(1,2) one e f
  have "\<exists>H. fft_fr ?h 0 8 False 4 ?fs = Inr (C_KZG_OK, H)
          \<and> fft_fr (override_on ?h ?g ?U) 0 8 False 4 ?fs' = Inr (C_KZG_OK, override_on H ?g ?U)
          \<and> 1 < unat (4::uint64_t)
          \<and> override_on H ?g ?U (0 + 1) = H (0 + 1)
          \<and> H 1 = - 4 + 4 * \<i>"
    by blast
  then show ?thesis
    unfolding Let_def
    by (intro conjI is_power_of_two_4 a b c d)
qed

section \<open>Round trip\<close>

text \<open>
  Claim C2. Let the settings have a power-of-two width, a forward table holding the
  powers \<open>w ^ m\<close> of a root of unity \<open>w\<close> of that order and an inverse table holding
  their multiplicative inverses in the same order. For every power of two
  \<open>n \<le> max_width\<close> and every input \<open>x\<close> of \<open>n\<close> elements, a forward call from \<open>inp\<close>
  into \<open>mid\<close> followed by an inverse call from \<open>mid\<close> into \<open>out\<close> with the same settings
  both succeed, and \<open>out\<close> then holds \<open>x\<close>, element for element. The buffer \<open>mid\<close>
  overlaps neither the other buffers nor the tables; \<open>out\<close> may be \<open>inp\<close> itself.
\<close>

theorem fft_fr_roundtrip:
  assumes "is_power_of_two n" and "n \<le> max_width fs" and "is_power_of_two (max_width fs)"
    and "map (\<lambda>m. h (expanded_roots_of_unity fs + m)) [0..<unat (max_width fs)] =
         map (\<lambda>m. w ^ m) [0..<unat (max_width fs)]"
    and "map (\<lambda>m. h (reverse_roots_of_unity fs + m)) [0..<unat (max_width fs)] =
         map (\<lambda>m. inverse (w ^ m)) [0..<unat (max_width fs)]"
    and "w ^ unat (max_width fs) = 1" and "1 \<notin> (\<lambda>m. w ^ m) ` {1..<unat (max_width fs)}"
    and "{inp ..< inp + unat n} \<inter> {mid ..< mid + unat n} = {}"
    and "{expanded_roots_of_unity fs ..< expanded_roots_of_unity fs + unat (max_width fs)}
           \<inter> {mid ..< mid + unat n} = {}"
    and "{reverse_roots_of_unity fs ..< reverse_roots_of_unity fs + unat (max_width fs)}
           \<inter> {mid ..< mid + unat n} = {}"
    and "{mid ..< mid + unat n} \<inter> {out ..< out + unat n} = {}"
    and "{reverse_roots_of_unity fs ..< reverse_roots_of_unity fs + unat (max_width fs)}
           \<inter> {out ..< out + unat n} = {}"
  shows "\<exists>h1 h2. fft_fr h mid inp False n fs = Inr (C_KZG_OK, h1)
       \<and> fft_fr h1 out mid True n fs = Inr (C_KZG_OK, h2)
       \<and> (\<forall>i<unat n. h2 (out + i) = h (inp + i))"
proof -
  from assms(1) obtain k where k: "k < 64" and n: "n = 2 ^ k" and un: "unat n = 2 ^ k"
    by (rule pow2_cases)
  from assms(3) obtain K where K: "K < 64" and uw: "unat (max_width fs) = 2 ^ K"
    by (rule pow2_cases)
  from assms(1) have nz: "n \<noteq> 0"
    by (rule is_power_of_two_nonzero)
  from assms(2) have "(2::nat) ^ k \<le> 2 ^ K"
    by (simp add: word_le_nat_alt un uw)
  then have kK: "k \<le> K" by simp
  let ?F = "expanded_roots_of_unity fs" and ?R = "reverse_roots_of_unity fs"
  let ?s = "max_width fs div n"
  have us: "unat ?s = 2 ^ (K - k)"
    using kK by (simp add: unat_div un uw power_diff)
  have sk: "2 ^ (K - k) * 2 ^ k = (2::nat) ^ K"
    using kK by (simp add: power_add [symmetric])
  define W where "W = w ^ (2 ^ (K - k))"
  have Wn: "W ^ (2 ^ k) = 1"
    using assms(6) by (simp add: W_def power_mult [symmetric] sk uw)
  have Wprim: "\<forall>m. 0 < m \<and> m < 2 ^ k \<longrightarrow> W ^ m \<noteq> 1"
  proof (intro allI impI)
    fix m :: nat assume m: "0 < m \<and> m < 2 ^ k"
    then have "2 ^ (K - k) * m < 2 ^ (K - k) * 2 ^ k" by simp
    with m have "2 ^ (K - k) * m \<in> {1..<2 ^ K}"
      by (simp add: sk Suc_le_eq)
    with assms(7) have "w ^ (2 ^ (K - k) * m) \<noteq> 1"
      unfolding uw by (metis imageI)
    then show "W ^ m \<noteq> 1"
      by (simp add: W_def power_mult)
  qed
  define V where "V = inverse W"
  have Vn: "V ^ (2 ^ k) = 1"
    using Wn by (simp add: V_def power_inverse)
  have Vprim: "\<forall>m. 0 < m \<and> m < 2 ^ k \<longrightarrow> V ^ m \<noteq> 1"
  proof (intro allI impI)
    fix m :: nat assume "0 < m \<and> m < 2 ^ k"
    with Wprim have "W ^ m \<noteq> 1" by blast
    then show "V ^ m \<noteq> 1"
      by (simp add: V_def power_inverse)
  qed
  have b: "2 ^ k * unat ?s < 2 ^ 64"
    using stride_bound [OF nz, of "max_width fs"] by (simp add: un)
  have idx: "\<forall>m<2 ^ k. m * unat ?s < unat (max_width fs)"
    using stride_index [OF assms(2) nz] by (simp add: un)
  have tabF: "\<forall>m<2 ^ k. h (?F + m * unat ?s) = W ^ m"
  proof (intro allI impI)
    fix m :: nat assume "m < 2 ^ k"
    with idx have "m * unat ?s < unat (max_width fs)" by blast
    with assms(4) have "h (?F + m * unat ?s) = w ^ (m * unat ?s)"
      by (simp add: table_entries)
    then show "h (?F + m * unat ?s) = W ^ m"
      by (simp add: W_def us power_mult [symmetric] mult.commute)
  qed
  have tabR: "\<forall>m<2 ^ k. h (?R + m * unat ?s) = V ^ m"
  proof (intro allI impI)
    fix m :: nat assume "m < 2 ^ k"
    with idx have "m * unat ?s < unat (max_width fs)" by blast
    with assms(5) have "h (?R + m * unat ?s) = inverse (w ^ (m * unat ?s))"
      by (simp add: table_entries)
    then show "h (?R + m * unat ?s) = V ^ m"
      by (simp add: V_def W_def us power_mult [symmetric] mult.commute power_inverse)
  qed
  let ?h1 = "fft_fr_fast h mid inp 1 ?F ?s n"
  let ?E = "fft_fr_fast ?h1 out mid 1 ?R ?s n"
  let ?c = "inverse (of_nat (unat n)) :: 'a"
  let ?h2 = "\<lambda>a. if a \<in> {out ..< out + unat n} then ?E a * ?c else ?E a"
  have 1: "fft_fr h mid inp False n fs = Inr (C_KZG_OK, ?h1)"
    by (simp add: fft_fr_valid [OF nz assms(2,1)])
  have 2: "fft_fr ?h1 out mid True n fs = Inr (C_KZG_OK, ?h2)"
    by (simp add: fft_fr_valid [OF nz assms(2,1)] scale_loop_whole fr_inv_def fr_from_uint64_def
        del: of_nat_unat)
  have fwd: "?h1 (mid + i) = (\<Sum>j<2 ^ k. h (inp + j) * W ^ (i * j))" if "i < 2 ^ k" for i
  proof (rule fast_is_sum [OF k n b _ _ tabF Wn Wprim that])
    show "\<forall>j<2 ^ k. inp + j \<notin> {mid ..< mid + 2 ^ k}"
      using range_outside [OF assms(8), of "2 ^ k" "\<lambda>j. j"] by (simp add: un)
    show "\<forall>m<2 ^ k. ?F + m * unat ?s \<notin> {mid ..< mid + 2 ^ k}"
      using range_outside [OF assms(9) idx] by (simp add: un)
  qed
  have keepR: "\<forall>m<2 ^ k. ?h1 (?R + m * unat ?s) = V ^ m"
  proof (intro allI impI)
    fix m :: nat assume m: "m < 2 ^ k"
    with range_outside [OF assms(10) idx] have "?R + m * unat ?s \<notin> {mid ..< mid + unat n}"
      by (simp add: un)
    with nz have "?h1 (?R + m * unat ?s) = h (?R + m * unat ?s)"
      by (rule fast_frame)
    with tabR m show "?h1 (?R + m * unat ?s) = V ^ m" by simp
  qed
  have inv: "?E (out + i) = (\<Sum>j<2 ^ k. ?h1 (mid + j) * V ^ (i * j))" if "i < 2 ^ k" for i
  proof (rule fast_is_sum [OF k n b _ _ keepR Vn Vprim that])
    show "\<forall>j<2 ^ k. mid + j \<notin> {out ..< out + 2 ^ k}"
      using range_outside [OF assms(11), of "2 ^ k" "\<lambda>j. j"] by (simp add: un)
    show "\<forall>m<2 ^ k. ?R + m * unat ?s \<notin> {out ..< out + 2 ^ k}"
      using range_outside [OF assms(12) idx] by (simp add: un)
  qed
  have nn: "(of_nat (2 ^ k) :: 'a) \<noteq> 0"
    using assms(6,7) kK unfolding uw by (rule two_power_field_nonzero)
  have 3: "\<forall>i<unat n. ?h2 (out + i) = h (inp + i)"
  proof (intro allI impI)
    fix i assume "i < unat n"
    then have i: "i < 2 ^ k" by (simp add: un)
    have "?E (out + i) = (\<Sum>j<2 ^ k. (\<Sum>l<2 ^ k. h (inp + l) * W ^ (j * l)) * inverse W ^ (i * j))"
      unfolding inv [OF i] V_def
      by (rule sum.cong [OF refl]) (simp add: fwd)
    also have "\<dots> = of_nat (2 ^ k) * h (inp + i)"
      using Wn Wprim i by (rule transform_inversion)
    finally have "?E (out + i) * inverse (of_nat (2 ^ k)) = h (inp + i)"
      using nn by simp
    with i show "?h2 (out + i) = h (inp + i)"
      by (simp add: un)
  qed
  from 1 2 3 show ?thesis by blast
qed

theorem fft_fr_roundtrip_witness:
  "let fs = \<lparr>max_width = 4, expanded_roots_of_unity = 16, reverse_roots_of_unity = 32\<rparr>;
       h = (\<lambda>a. 0::complex)(8 := 3, 9 := 5, 10 := 7, 11 := 1, 16 := 1, 17 := \<i>, 18 := - 1, 19 := - \<i>,
              32 := 1, 33 := - \<i>, 34 := - 1, 35 := \<i>)
   in is_power_of_two 4 \<and> 4 \<le> max_width fs \<and> is_power_of_two (max_width fs)
    \<and> map (\<lambda>m. h (expanded_roots_of_unity fs + m)) [0..<unat (max_width fs)] =
        map (\<lambda>m. \<i> ^ m) [0..<unat (max_width fs)]
    \<and> map (\<lambda>m. h (reverse_roots_of_unity fs + m)) [0..<unat (max_width fs)] =
        map (\<lambda>m. inverse (\<i> ^ m)) [0..<unat (max_width fs)]
    \<and> \<i> ^ unat (max_width fs) = 1 \<and> 1 \<notin> (\<lambda>m. \<i> ^ m) ` {1..<unat (max_width fs)}
    \<and> {8 ..< 8 + unat (4::uint64_t)} \<inter> {0 ..< 0 + unat (4::uint64_t)} = {}
    \<and> {expanded_roots_of_unity fs ..< expanded_roots_of_unity fs + unat (max_width fs)}
           \<inter> {0 ..< 0 + unat (4::uint64_t)} = {}
    \<and> {reverse_roots_of_unity fs ..< reverse_roots_of_unity fs + unat (max_width fs)}
           \<inter> {0 ..< 0 + unat (4::uint64_t)} = {}
    \<and> {0 ..< 0 + unat (4::uint64_t)} \<inter> {8 ..< 8 + unat (4::uint64_t)} = {}
    \<and> {reverse_roots_of_unity fs ..< reverse_roots_of_unity fs + unat (max_width fs)}
           \<inter> {8 ..< 8 + unat (4::uint64_t)} = {}
    \<and> (\<exists>h1 h2. fft_fr h 0 8 False 4 fs = Inr (C_KZG_OK, h1)
          \<and> fft_fr h1 8 0 True 4 fs = Inr (C_KZG_OK, h2)
          \<and> h1 0 = 16 \<and> h1 1 = - 4 + 4 * \<i> \<and> h1 2 = 4 \<and> h1 3 = - 4 - 4 * \<i>
          \<and> h2 (8 + 0) = 3 \<and> h2 (8 + 1) = 5 \<and> h2 (8 + 2) = 7 \<and> h2 (8 + 3) = 1)"
proof -
  let ?fs = "\<lparr>max_width = 4, expanded_roots_of_unity = 16, reverse_roots_of_unity = 32\<rparr>"
  let ?h = "(\<lambda>a. 0::complex)(8 := 3, 9 := 5, 10 := 7, 11 := 1, 16 := 1, 17 := \<i>, 18 := - 1, 19 := - \<i>,
              32 := 1, 33 := - \<i>, 34 := - 1, 35 := \<i>)"
  have a: "4 \<le> max_width ?fs" "is_power_of_two (max_width ?fs)"
    by (simp_all add: is_power_of_two_4)
  have b: "map (\<lambda>m. ?h (expanded_roots_of_unity ?fs + m)) [0..<unat (max_width ?fs)] =
        map (\<lambda>m. \<i> ^ m) [0..<unat (max_width ?fs)]"
    by (simp add: upt_4 i_pow)
  have c: "map (\<lambda>m. ?h (reverse_roots_of_unity ?fs + m)) [0..<unat (max_width ?fs)] =
        map (\<lambda>m. inverse (\<i> ^ m)) [0..<unat (max_width ?fs)]"
    by (simp add: upt_4 i_pow)
  have d: "\<i> ^ unat (max_width ?fs) = 1" "1 \<notin> (\<lambda>m. \<i> ^ m) ` {1..<unat (max_width ?fs)}"
    by (simp_all add: ivl_1_4 i_pow complex_eq_iff)
  have e: "{8 ..< 8 + unat (4::uint64_t)} \<inter> {0 ..< 0 + unat (4::uint64_t)} = {}"
      "{expanded_roots_of_unity ?fs ..< expanded_roots_of_unity ?fs + unat (max_width ?fs)}
           \<inter> {0 ..< 0 + unat (4::uint64_t)} = {}"
      "{reverse_roots_of_unity ?fs ..< reverse_roots_of_unity ?fs + unat (max_width ?fs)}
           \<inter> {0 ..< 0 + unat (4::uint64_t)} = {}"
      "{0 ..< 0 + unat (4::uint64_t)} \<inter> {8 ..< 8 + unat (4::uint64_t)} = {}"
      "{reverse_roots_of_unity ?fs ..< reverse_roots_of_unity ?fs + unat (max_width ?fs)}
           \<inter> {8 ..< 8 + unat (4::uint64_t)} = {}"
    by simp_all
  from fft_fr_roundtrip [OF is_power_of_two_4 a b c d e]
  obtain h1 h2 where r: "fft_fr ?h 0 8 False 4 ?fs = Inr (C_KZG_OK, h1)"
      "fft_fr h1 8 0 True 4 ?fs = Inr (C_KZG_OK, h2)"
      "\<forall>i<unat (4::uint64_t). h2 (8 + i) = ?h (8 + i)"
    by blast
  have "fft_fr ?h 0 8 False 4 ?fs = Inr (C_KZG_OK, fft_fr_fast ?h 0 8 1 16 1 4)"
    by (simp add: fft_fr_valid is_power_of_two_4)
  with r(1) have "h1 = fft_fr_fast ?h 0 8 1 16 1 4" by simp
  then have f: "h1 0 = 16" "h1 1 = - 4 + 4 * \<i>" "h1 2 = 4" "h1 3 = - 4 - 4 * \<i>"
    by (simp_all add: fast_rec fast_base fast_loop_step fast_loop_stop)
  have g: "h2 (8 + 0) = 3" "h2 (8 + 1) = 5" "h2 (8 + 2) = 7" "h2 (8 + 3) = 1"
    using r(3) [rule_format, of 0] r(3) [rule_format, of 1] r(3) [rule_format, of 2]
      r(3) [rule_format, of 3]
    by simp_all
  from r(1,2) f g
  have "\<exists>h1 h2. fft_fr ?h 0 8 False 4 ?fs = Inr (C_KZG_OK, h1)
          \<and> fft_fr h1 8 0 True 4 ?fs = Inr (C_KZG_OK, h2)
          \<and> h1 0 = 16 \<and> h1 1 = - 4 + 4 * \<i> \<and> h1 2 = 4 \<and> h1 3 = - 4 - 4 * \<i>
          \<and> h2 (8 + 0) = 3 \<and> h2 (8 + 1) = 5 \<and> h2 (8 + 2) = 7 \<and> h2 (8 + 3) = 1"
    by blast
  then show ?thesis
    unfolding Let_def
    by (intro conjI is_power_of_two_4 a b c d e)
qed

end
